theory Spec2Isabelle
  imports Complex_Main
begin

section \<open>Data model of \<^verbatim>\<open>libgcode/gcode_pocket.c\<close>\<close>

text \<open>
  The scanline pocketing engine of GCAM: \<^verbatim>\<open>gcode_pocket_prep\<close> fills a grid of rows
  with cut intervals, \<^verbatim>\<open>gcode_pocket_subtract\<close> carves the intervals of an island grid
  out of it, \<^verbatim>\<open>gcode_pocket_make\<close> turns the grid into motions.

  \<^verbatim>\<open>gfloat_t\<close> is defined in a header that is not among the sources. Its values are
  modelled by \<open>real\<close>. Comparisons and the arithmetic on coordinates are exact. The
  arithmetic that counts the rows to allocate and that steps from one scanline to the
  next goes through \<open>fl\<close>, the rounding of a result to a \<^verbatim>\<open>gfloat_t\<close>, which is a
  parameter: there the rounding decides how many rows are stored and whether they fit
  the rows allocated. \<^verbatim>\<open>gcode_vec2d_t\<close> is an array of two scalars: a pair, \<open>fst\<close> for
  index 0 and \<open>snd\<close> for index 1.

  The headers are not part of the sources at hand, so the structures are read
  off the fields the functions use. The field \<^verbatim>\<open>y\<close> of a row is called \<open>row_y\<close> here.
\<close>

type_synonym gfloat_t = real

type_synonym gcode_vec2d_t = "gfloat_t \<times> gfloat_t"

text \<open>
  A row owns a block of line slots (\<^verbatim>\<open>malloc (64 * sizeof (gcode_vec2d_t))\<close>), of which
  the first \<open>line_num\<close> are in use. \<open>line_array\<close> is the whole block: its length is the
  number of slots, and the slots at and above \<open>line_num\<close> hold values nobody should read.
\<close>

record gcode_pocket_row_t =
  line_array :: "gcode_vec2d_t list"
  line_num :: nat
  row_y :: gfloat_t

text \<open>
  \<open>row_array\<close> is the block of rows of the grid; its length is the number of rows
  that were allocated and filled.
\<close>

record gcode_pocket_t =
  row_num :: nat
  seg_num :: nat
  row_array :: "gcode_pocket_row_t list"
  resolution :: gfloat_t

record gcode_tool_t =
  diameter :: gfloat_t

text \<open>
  C gives no meaning to a load or a store outside the block it addresses, nor to the
  conversion to \<^verbatim>\<open>int\<close> of a value that no \<^verbatim>\<open>int\<close> holds. The three functions check
  no index and report nothing (all are \<^verbatim>\<open>void\<close>), so the model makes such a step an
  outcome of its own: the run stops being defined there. It is not an error the
  caller of the C function gets to see.
\<close>

datatype undefined_behaviour =
    Row_count_not_an_int
  | Access_past_x_array
  | Store_past_line_array
  | Store_past_row_array
  | Read_past_line_array
  | Read_past_row_array

text \<open>
  What a run of one of the functions comes to: it returns, with the state it leaves,
  or it makes an access that C leaves undefined.
\<close>

type_synonym 'a outcome = "undefined_behaviour + 'a"

abbreviation Returns :: "'a \<Rightarrow> 'a outcome" where
  "Returns \<equiv> Inr"

abbreviation Undefined :: "undefined_behaviour \<Rightarrow> 'a outcome" where
  "Undefined \<equiv> Inl"

definition x_array_size :: nat where
  "x_array_size = 64"

definition line_array_size :: nat where
  "line_array_size = 64"

text \<open>The lines of a row that are in use, in stored order.\<close>

definition lines_of :: "gcode_pocket_row_t \<Rightarrow> gcode_vec2d_t list" where
  "lines_of r = take (line_num r) (line_array r)"

section \<open>\<^verbatim>\<open>gcode_pocket_init\<close>\<close>

definition gcode_pocket_init :: "gfloat_t \<Rightarrow> gcode_pocket_t" where
  "gcode_pocket_init res = \<lparr>row_num = 0, seg_num = 0, row_array = [], resolution = res\<rparr>"

section \<open>\<^verbatim>\<open>gcode_pocket_prep\<close>\<close>

text \<open>
  The loop \<^verbatim>\<open>for (i = 0; i + 1 < x_index; i += 2)\<close> over the sorted crossings of one
  scanline. \<open>x_array\<close> is the list of the first \<^verbatim>\<open>x_index\<close> entries of the buffer. A
  pair wider than the tool is stored in slot \<open>line_num\<close> of the row, nudged inwards by
  a tenth of the diameter at each end, and counted in the row and in \<^verbatim>\<open>seg_num\<close>.
\<close>

function gen_lines ::
  "gfloat_t list \<Rightarrow> gcode_tool_t \<Rightarrow> nat \<Rightarrow> gcode_pocket_row_t \<Rightarrow> nat
    \<Rightarrow> (gcode_pocket_row_t \<times> nat) outcome" where
  "gen_lines x_array tool i row seg =
     (if i + 1 < length x_array then
        (if \<bar>x_array ! (i + 1) - x_array ! i\<bar> > diameter tool then
           (if line_num row < length (line_array row) then
              gen_lines x_array tool (i + 2)
                (row\<lparr>line_array := (line_array row)[line_num row :=
                         (x_array ! i + 0.1 * diameter tool,
                          x_array ! (i + 1) - 0.1 * diameter tool)],
                      line_num := line_num row + 1\<rparr>)
                (seg + 1)
            else Undefined Store_past_line_array)
         else gen_lines x_array tool (i + 2) row seg)
      else Returns (row, seg))"
  by pat_completeness auto
termination
  by (relation "measure (\<lambda>(x_array, tool, i, row, seg). length x_array - i)") auto

declare gen_lines.simps [simp del]

text \<open>
  Modelled from the spec: the \<^verbatim>\<open>eval\<close> callbacks of the blocks are not in the sources.
  The spec has every primitive return all the crossing points of the scanline, and
  has them pooled. \<open>eval y\<close> is the list of the values that the callbacks of the blocks
  from \<^verbatim>\<open>start_block\<close> up to \<^verbatim>\<open>end_block\<close> report for the scanline \<open>y\<close>, in the order
  reported, and its length is the value of \<^verbatim>\<open>x_index\<close> after the last callback.
\<close>

text \<open>
  The body of the scanline loop, lines 74 to 122. The buffer is \<^verbatim>\<open>gfloat_t x_array[64]\<close>
  and the callbacks get it without its size. When \<^verbatim>\<open>x_index\<close> comes back above 64,
  \<^verbatim>\<open>qsort\<close> at line 85 sorts \<^verbatim>\<open>x_index\<close> elements of it and the loop at line 94 reads
  \<^verbatim>\<open>x_array[i]\<close> up to \<^verbatim>\<open>x_index\<close>: the run goes past the end of the buffer, whatever
  the callbacks did. Two more pieces are not in the sources and are parameters:
  \<^item> \<open>remove_duplicate_scalars\<close>: \<^verbatim>\<open>gcode_util_remove_duplicate_scalars\<close>, applied to the
    sorted entries;
  \<^item> the tool that \<^verbatim>\<open>gcode_tool_find\<close> returns.
  \<^verbatim>\<open>qsort\<close> with \<^verbatim>\<open>gcode_util_qsort_compare_asc\<close> is \<open>sort\<close>. \<^verbatim>\<open>malloc\<close> is taken to
  succeed. The fresh block of line slots has indeterminate contents in C; the model
  fills it with zeros.
\<close>

definition prep_scanline ::
  "(gfloat_t \<Rightarrow> gfloat_t list) \<Rightarrow> (gfloat_t list \<Rightarrow> gfloat_t list) \<Rightarrow> gcode_tool_t
    \<Rightarrow> gfloat_t \<Rightarrow> nat \<Rightarrow> (gcode_pocket_row_t \<times> nat) outcome" where
  "prep_scanline eval remove_duplicate_scalars tool y seg =
     (if length (eval y) > x_array_size then Undefined Access_past_x_array
      else
        let x_array = remove_duplicate_scalars (sort (eval y));
            row = \<lparr>line_array = replicate line_array_size (0, 0), line_num = 0, row_y = y\<rparr>
        in if length x_array \<ge> 2 then gen_lines x_array tool 0 row seg
           else Returns (row, seg))"

text \<open>
  The loop \<^verbatim>\<open>for (y = -origin; y <= size - origin; y += resolution)\<close>. The rows were
  allocated before it, \<open>alloc\<close> of them; the first store of the body goes to
  \<^verbatim>\<open>row_array[row_num]\<close>, which lies past the block once \<open>row_num\<close> has reached
  \<open>alloc\<close>. The sum \<^verbatim>\<open>y += resolution\<close> is rounded to a \<^verbatim>\<open>gfloat_t\<close>. The model keeps in
  \<open>row_array\<close> the rows filled so far.
\<close>

function prep_rows ::
  "(gfloat_t \<Rightarrow> gfloat_t) \<Rightarrow> (gfloat_t \<Rightarrow> gfloat_t list) \<Rightarrow> (gfloat_t list \<Rightarrow> gfloat_t list)
    \<Rightarrow> gcode_tool_t \<Rightarrow> nat \<Rightarrow> gfloat_t \<Rightarrow> gfloat_t \<Rightarrow> gcode_pocket_t
    \<Rightarrow> gcode_pocket_t outcome" where
  "prep_rows fl eval remove_duplicate_scalars tool alloc y_max y pocket =
     (if y \<le> y_max then
        (if row_num pocket < alloc then
           (case prep_scanline eval remove_duplicate_scalars tool y (seg_num pocket) of
              Undefined u \<Rightarrow> Undefined u
            | Returns (row, seg) \<Rightarrow>
                prep_rows fl eval remove_duplicate_scalars tool alloc y_max
                  (fl (y + resolution pocket))
                  (pocket\<lparr>row_array := row_array pocket @ [row],
                          row_num := row_num pocket + 1,
                          seg_num := seg\<rparr>))
         else Undefined Store_past_row_array)
      else Returns pocket)"
  by pat_completeness auto
termination
  by (relation "measure (\<lambda>(fl, eval, rds, tool, alloc, y_max, y, pocket). alloc - row_num pocket)")
    auto

declare prep_rows.simps [simp del]

text \<open>
  \<^verbatim>\<open>(int)(1 + material_size[1] / resolution)\<close>, the number of rows that line 66 computes
  and line 68 allocates. The quotient and the sum are each rounded to a \<^verbatim>\<open>gfloat_t\<close>;
  the conversion drops the fraction, and is undefined when the value is outside the
  range of an \<^verbatim>\<open>int\<close>, taken here to have 32 bits. A real number has no infinity: with
  a resolution of zero the quotient is infinite or no number in C, which no \<^verbatim>\<open>int\<close>
  holds. A count below zero allocates nothing that can be stored to.
\<close>

definition rows_allocated :: "(gfloat_t \<Rightarrow> gfloat_t) \<Rightarrow> gfloat_t \<Rightarrow> gfloat_t \<Rightarrow> nat outcome" where
  "rows_allocated fl material_size res =
     (if res = 0 then Undefined Row_count_not_an_int
      else
        let count = fl (1 + fl (material_size / res)) in
        if - (2 ^ 31) - 1 < count \<and> count < 2 ^ 31
        then Returns (nat (if 0 \<le> count then \<lfloor>count\<rfloor> else \<lceil>count\<rceil>))
        else Undefined Row_count_not_an_int)"

text \<open>
  \<^verbatim>\<open>gcode_pocket_prep\<close>. \<open>material_size\<close> and \<open>material_origin\<close> are the y components
  \<^verbatim>\<open>material_size[1]\<close> and \<^verbatim>\<open>material_origin[1]\<close> of the project. The bound of the loop,
  \<^verbatim>\<open>material_size[1] - material_origin[1]\<close>, is a rounded difference; its start,
  \<^verbatim>\<open>-material_origin[1]\<close>, is exact. \<^verbatim>\<open>seg_num\<close> is not reset: it goes on from the value
  the grid has.
\<close>

definition gcode_pocket_prep ::
  "(gfloat_t \<Rightarrow> gfloat_t) \<Rightarrow> (gfloat_t \<Rightarrow> gfloat_t list) \<Rightarrow> (gfloat_t list \<Rightarrow> gfloat_t list)
    \<Rightarrow> gcode_tool_t \<Rightarrow> gfloat_t \<Rightarrow> gfloat_t \<Rightarrow> gcode_pocket_t \<Rightarrow> gcode_pocket_t outcome" where
  "gcode_pocket_prep fl eval remove_duplicate_scalars tool material_size material_origin pocket =
     (case rows_allocated fl material_size (resolution pocket) of
        Undefined u \<Rightarrow> Undefined u
      | Returns alloc \<Rightarrow>
          prep_rows fl eval remove_duplicate_scalars tool alloc
            (fl (material_size - material_origin))
            (- material_origin)
            (pocket\<lparr>row_num := 0, row_array := []\<rparr>))"

section \<open>\<^verbatim>\<open>gcode_pocket_make\<close>\<close>

text \<open>
  Modelled from the spec: the macros \<^verbatim>\<open>GCODE_APPEND\<close>, \<^verbatim>\<open>GCODE_COMMENT\<close>,
  \<^verbatim>\<open>GCODE_RETRACT\<close>, \<^verbatim>\<open>GCODE_2D_MOVE\<close>, \<^verbatim>\<open>GCODE_PLUMMET\<close>, \<^verbatim>\<open>GCODE_DESCEND\<close> and
  \<^verbatim>\<open>GCODE_2D_LINE\<close> are not in the sources. The spec describes the sink as an ordered
  stream of typed events (comment, retract to a height, rapid move to a point, rapid
  plunge to a depth, feed descend to a depth, feed line to a point); each use of a
  macro is one event carrying the arguments of the macro, appended to the code of
  the block.
\<close>

datatype motion =
    APPEND string
  | COMMENT string
  | RETRACT gfloat_t
  | MOVE_2D gfloat_t gfloat_t string
  | PLUMMET gfloat_t
  | DESCEND gfloat_t gcode_tool_t
  | LINE_2D gfloat_t gfloat_t string

text \<open>
  The five statements both directions of the zig-zag run for a line that is not
  skipped; \<open>near\<close> is where the tool goes down and \<open>far\<close> where the cut ends. The source
  writes them out twice, with the two ends of the line exchanged. \<open>ztraverse\<close> is
  \<^verbatim>\<open>block->gcode->ztraverse\<close> and \<open>precision\<close> is the constant \<^verbatim>\<open>GCODE_PRECISION\<close>, whose
  definition is not in the sources.
\<close>

definition cut_line ::
  "gfloat_t \<Rightarrow> gfloat_t \<Rightarrow> gfloat_t \<Rightarrow> gfloat_t \<Rightarrow> gcode_tool_t
    \<Rightarrow> gfloat_t \<Rightarrow> gfloat_t \<Rightarrow> gfloat_t \<Rightarrow> motion list" where
  "cut_line ztraverse precision depth rapid_depth tool near far y =
     [RETRACT ztraverse, MOVE_2D near y '''']
     @ (if rapid_depth \<ge> depth - precision then [PLUMMET rapid_depth] else [])
     @ [DESCEND depth tool, LINE_2D far y '''']"

text \<open>\<^verbatim>\<open>for (j = 0; j < line_num; j++)\<close>, the branch of the even rows.\<close>

function make_left_to_right ::
  "gfloat_t \<Rightarrow> gfloat_t \<Rightarrow> gfloat_t \<Rightarrow> gfloat_t \<Rightarrow> gcode_tool_t
    \<Rightarrow> gcode_pocket_row_t \<Rightarrow> nat \<Rightarrow> motion list \<Rightarrow> motion list outcome" where
  "make_left_to_right ztraverse precision depth rapid_depth tool row j code =
     (if j < line_num row then
        (if j < length (line_array row) then
           (if \<bar>fst (line_array row ! j) - snd (line_array row ! j)\<bar> < diameter tool then
              make_left_to_right ztraverse precision depth rapid_depth tool row (j + 1) code
            else
              make_left_to_right ztraverse precision depth rapid_depth tool row (j + 1)
                (code @ cut_line ztraverse precision depth rapid_depth tool
                          (fst (line_array row ! j)) (snd (line_array row ! j)) (row_y row)))
         else Undefined Read_past_line_array)
      else Returns code)"
  by pat_completeness auto
termination
  by (relation "measure (\<lambda>(zt, pr, d, rd, tool, row, j, code). line_num row - j)") auto

declare make_left_to_right.simps [simp del]

text \<open>
  \<^verbatim>\<open>for (j = line_num - 1; j >= 0; j--)\<close>, the branch of the odd rows; \<open>j\<close> is a signed
  integer, which goes below zero to end the loop.
\<close>

function make_right_to_left ::
  "gfloat_t \<Rightarrow> gfloat_t \<Rightarrow> gfloat_t \<Rightarrow> gfloat_t \<Rightarrow> gcode_tool_t
    \<Rightarrow> gcode_pocket_row_t \<Rightarrow> int \<Rightarrow> motion list \<Rightarrow> motion list outcome" where
  "make_right_to_left ztraverse precision depth rapid_depth tool row j code =
     (if j \<ge> 0 then
        (if nat j < length (line_array row) then
           (if \<bar>fst (line_array row ! nat j) - snd (line_array row ! nat j)\<bar> < diameter tool then
              make_right_to_left ztraverse precision depth rapid_depth tool row (j - 1) code
            else
              make_right_to_left ztraverse precision depth rapid_depth tool row (j - 1)
                (code @ cut_line ztraverse precision depth rapid_depth tool
                          (snd (line_array row ! nat j)) (fst (line_array row ! nat j)) (row_y row)))
         else Undefined Read_past_line_array)
      else Returns code)"
  by pat_completeness auto
termination
  by (relation "measure (\<lambda>(zt, pr, d, rd, tool, row, j, code). nat (j + 1))") auto

declare make_right_to_left.simps [simp del]

text \<open>\<^verbatim>\<open>for (i = 0; i < row_num; i++)\<close>: odd rows right to left, even rows left to right.\<close>

function make_rows ::
  "gfloat_t \<Rightarrow> gfloat_t \<Rightarrow> gfloat_t \<Rightarrow> gfloat_t \<Rightarrow> gcode_tool_t
    \<Rightarrow> gcode_pocket_t \<Rightarrow> nat \<Rightarrow> motion list \<Rightarrow> motion list outcome" where
  "make_rows ztraverse precision depth rapid_depth tool pocket i code =
     (if i < row_num pocket then
        (if i < length (row_array pocket) then
           (case (if i mod 2 \<noteq> 0
                  then make_right_to_left ztraverse precision depth rapid_depth tool
                         (row_array pocket ! i) (int (line_num (row_array pocket ! i)) - 1) code
                  else make_left_to_right ztraverse precision depth rapid_depth tool
                         (row_array pocket ! i) 0 code) of
              Undefined u \<Rightarrow> Undefined u
            | Returns code' \<Rightarrow>
                make_rows ztraverse precision depth rapid_depth tool pocket (i + 1) code')
         else Undefined Read_past_row_array)
      else Returns code)"
  by pat_completeness auto
termination
  by (relation "measure (\<lambda>(zt, pr, d, rd, tool, pocket, i, code). row_num pocket - i)") auto

declare make_rows.simps [simp del]

text \<open>
  \<^verbatim>\<open>gcode_pocket_make\<close>. \<open>code\<close> is what the block holds at the call; the result is what
  it holds at the return. \<open>gsprintf\<close> stands for the formatting of the comment,
  \<^verbatim>\<open>gsprintf (string, decimals, "Pass depth: %z", depth)\<close>, which is not in the sources.
\<close>

definition gcode_pocket_make ::
  "(string \<Rightarrow> gfloat_t \<Rightarrow> string) \<Rightarrow> gfloat_t \<Rightarrow> gfloat_t
    \<Rightarrow> gcode_pocket_t \<Rightarrow> motion list \<Rightarrow> gfloat_t \<Rightarrow> gfloat_t \<Rightarrow> gcode_tool_t
    \<Rightarrow> motion list outcome" where
  "gcode_pocket_make gsprintf ztraverse precision pocket code depth rapid_depth tool =
     (if seg_num pocket = 0 then Returns code
      else
        (case make_rows ztraverse precision depth rapid_depth tool pocket 0
                (code @ [APPEND [CHR 10],
                         COMMENT (gsprintf ''Pass depth: %z'' depth),
                         APPEND [CHR 10]]) of
           Undefined u \<Rightarrow> Undefined u
         | Returns code' \<Rightarrow> Returns (code' @ [RETRACT ztraverse])))"

section \<open>\<^verbatim>\<open>gcode_pocket_subtract\<close>\<close>

text \<open>
  \<^verbatim>\<open>for (l = line_num - 1; l > j; l--)\<close>: every line above \<open>j\<close> moves up one slot. The
  loop is entered with \<open>j < line_num\<close>, so \<open>line_num - 1\<close> does not go below zero, and
  inside the loop \<open>l > j \<ge> 0\<close>.
\<close>

function shift_up ::
  "gcode_vec2d_t list \<Rightarrow> nat \<Rightarrow> nat \<Rightarrow> gcode_vec2d_t list outcome" where
  "shift_up arr l j =
     (if l > j then
        (if l + 1 < length arr then shift_up (arr[l + 1 := arr ! l]) (l - 1) j
         else Undefined Store_past_line_array)
      else Returns arr)"
  by pat_completeness auto
termination
  by (relation "measure (\<lambda>(arr, l, j). l)") auto

declare shift_up.simps [simp del]

text \<open>
  The three conditions of the comparison of a line \<open>a\<close> of grid A with a line \<open>b\<close> of
  grid B, named as the comment of the source numbers them: \<^verbatim>\<open>CASE 1\<close> "contained
  within", \<^verbatim>\<open>CASE 2\<close> "overlap right", \<^verbatim>\<open>CASE 3\<close> "overlap left". \<open>precision\<close> is
  \<^verbatim>\<open>GCODE_PRECISION\<close>.
\<close>

definition case_1 :: "gfloat_t \<Rightarrow> gcode_vec2d_t \<Rightarrow> gcode_vec2d_t \<Rightarrow> bool" where
  "case_1 precision a b =
     (fst b + precision \<ge> fst a \<and> fst b - precision \<le> snd a \<and>
      snd b + precision \<ge> fst a \<and> snd b - precision \<le> snd a)"

definition case_2 :: "gcode_vec2d_t \<Rightarrow> gcode_vec2d_t \<Rightarrow> bool" where
  "case_2 a b = (fst b > fst a \<and> fst b < snd a)"

definition case_3 :: "gcode_vec2d_t \<Rightarrow> gcode_vec2d_t \<Rightarrow> bool" where
  "case_3 a b = (snd b > fst a \<and> snd b < snd a)"

text \<open>
  The body of the innermost loop: line \<open>j\<close> of the row of grid A against line \<open>k\<close> of
  the row of grid B, with the three cases in the order of the source. It returns the
  row and \<open>j\<close>, which the first case moves on to the line it created.
\<close>

definition subtract_line ::
  "gfloat_t \<Rightarrow> gcode_pocket_row_t \<Rightarrow> gcode_pocket_row_t \<Rightarrow> nat \<Rightarrow> nat
    \<Rightarrow> (gcode_pocket_row_t \<times> nat) outcome" where
  "subtract_line precision row_a row_b j k =
     (if j < length (line_array row_a) \<and> k < length (line_array row_b) then
        let a = line_array row_a ! j; b = line_array row_b ! k in
        if case_1 precision a b then
          (case shift_up (line_array row_a) (line_num row_a - 1) j of
             Undefined u \<Rightarrow> Undefined u
           | Returns arr \<Rightarrow>
               if j + 1 < length arr then
                 Returns (row_a\<lparr>line_array := arr[j + 1 := (snd b, snd (arr ! j)),
                                             j := (fst (arr ! j), fst b)],
                            line_num := line_num row_a + 1\<rparr>,
                      j + 1)
               else Undefined Store_past_line_array)
        else if case_2 a b then
          Returns (row_a\<lparr>line_array := (line_array row_a)[j := (fst a, fst b)]\<rparr>, j)
        else if case_3 a b then
          Returns (row_a\<lparr>line_array := (line_array row_a)[j := (snd b, snd a)]\<rparr>, j)
        else Returns (row_a, j)
      else Undefined Read_past_line_array)"

text \<open>\<^verbatim>\<open>for (k = 0; k < pocket_b->row_array[i].line_num; k++)\<close>.\<close>

function subtract_lines ::
  "gfloat_t \<Rightarrow> gcode_pocket_row_t \<Rightarrow> gcode_pocket_row_t \<Rightarrow> nat \<Rightarrow> nat
    \<Rightarrow> (gcode_pocket_row_t \<times> nat) outcome" where
  "subtract_lines precision row_a row_b j k =
     (if k < line_num row_b then
        (case subtract_line precision row_a row_b j k of
           Undefined u \<Rightarrow> Undefined u
         | Returns (row_a', j') \<Rightarrow> subtract_lines precision row_a' row_b j' (k + 1))
      else Returns (row_a, j))"
  by pat_completeness auto
termination
  by (relation "measure (\<lambda>(precision, row_a, row_b, j, k). line_num row_b - k)") auto

declare subtract_lines.simps [simp del]

text \<open>
  A pass over the lines of B leaves as many lines of A above \<open>j\<close> as there were: each
  split adds one line and moves \<open>j\<close> up by one. The loop over \<open>j\<close> ends for this reason.
\<close>

lemma subtract_line_count:
  "subtract_line precision row_a row_b j k = Returns (row_a', j')
   \<Longrightarrow> line_num row_a' + j = line_num row_a + j'"
  by (auto simp: subtract_line_def Let_def split: if_splits sum.splits)

lemma subtract_lines_count:
  "subtract_lines precision row_a row_b j k = Returns (row_a', j')
   \<Longrightarrow> line_num row_a' + j = line_num row_a + j'"
proof (induction precision row_a row_b j k rule: subtract_lines.induct)
  case (1 precision row_a row_b j k)
  show ?case
  proof (cases "k < line_num row_b")
    case False
    with "1.prems" show ?thesis
      by (simp add: subtract_lines.simps [of precision row_a row_b j k])
  next
    case True
    with "1.prems" obtain r1 j1 where
      s: "subtract_line precision row_a row_b j k = Returns (r1, j1)"
      and t: "subtract_lines precision r1 row_b j1 (k + 1) = Returns (row_a', j')"
      by (auto simp: subtract_lines.simps [of precision row_a row_b j k] split: sum.splits)
    from "1.IH" [OF True s refl t] subtract_line_count [OF s] show ?thesis
      by simp
  qed
qed

text \<open>
  \<^verbatim>\<open>for (j = 0; j < pocket_a->row_array[i].line_num; j++)\<close>. \<open>rows_b\<close> is the row array of
  grid B, read at the index \<open>i\<close> of the row of grid A.
\<close>

function subtract_row ::
  "gfloat_t \<Rightarrow> gcode_pocket_row_t \<Rightarrow> gcode_pocket_row_t list \<Rightarrow> nat \<Rightarrow> nat
    \<Rightarrow> gcode_pocket_row_t outcome" where
  "subtract_row precision row_a rows_b i j =
     (if j < line_num row_a then
        (if i < length rows_b then
           (case subtract_lines precision row_a (rows_b ! i) j 0 of
              Undefined u \<Rightarrow> Undefined u
            | Returns (row_a', j') \<Rightarrow> subtract_row precision row_a' rows_b i (j' + 1))
         else Undefined Read_past_row_array)
      else Returns row_a)"
  by pat_completeness auto
termination
proof (relation "measure (\<lambda>(precision, row_a, rows_b, i, j). line_num row_a - j)")
  show "wf (measure (\<lambda>(precision, row_a, rows_b, i, j). line_num row_a - j))"
    by simp
next
  fix precision :: gfloat_t and row_a :: gcode_pocket_row_t
    and rows_b :: "gcode_pocket_row_t list" and i j :: nat
    and x2 :: "gcode_pocket_row_t \<times> nat" and row_a' :: gcode_pocket_row_t and j' :: nat
  assume "j < line_num row_a"
    and "subtract_lines precision row_a (rows_b ! i) j 0 = Returns x2"
    and "(row_a', j') = x2"
  then show "((precision, row_a', rows_b, i, j' + 1), (precision, row_a, rows_b, i, j))
      \<in> measure (\<lambda>(precision, row_a, rows_b, i, j). line_num row_a - j)"
    using subtract_lines_count [of precision row_a "rows_b ! i" j 0 row_a' j']
    by auto
qed

declare subtract_row.simps [simp del]

text \<open>\<^verbatim>\<open>for (i = 0; i < pocket_a->row_num; i++)\<close>.\<close>

function subtract_rows ::
  "gfloat_t \<Rightarrow> gcode_pocket_t \<Rightarrow> gcode_pocket_t \<Rightarrow> nat
    \<Rightarrow> gcode_pocket_t outcome" where
  "subtract_rows precision pocket_a pocket_b i =
     (if i < row_num pocket_a then
        (if i < length (row_array pocket_a) then
           (case subtract_row precision (row_array pocket_a ! i) (row_array pocket_b) i 0 of
              Undefined u \<Rightarrow> Undefined u
            | Returns row \<Rightarrow>
                subtract_rows precision
                  (pocket_a\<lparr>row_array := (row_array pocket_a)[i := row]\<rparr>) pocket_b (i + 1))
         else Undefined Read_past_row_array)
      else Returns pocket_a)"
  by pat_completeness auto
termination
  by (relation "measure (\<lambda>(precision, pocket_a, pocket_b, i). row_num pocket_a - i)") auto

declare subtract_rows.simps [simp del]

text \<open>
  \<^verbatim>\<open>gcode_pocket_subtract\<close>: grid A is changed in place, grid B is only read; the
  result is grid A at the return. The two grids are distinct objects.
\<close>

definition gcode_pocket_subtract ::
  "gfloat_t \<Rightarrow> gcode_pocket_t \<Rightarrow> gcode_pocket_t \<Rightarrow> gcode_pocket_t outcome" where
  "gcode_pocket_subtract precision pocket_a pocket_b = subtract_rows precision pocket_a pocket_b 0"

fun crossing_pairs :: "'a list \<Rightarrow> ('a \<times> 'a) list" where
  "crossing_pairs (a # b # xs) = (a, b) # crossing_pairs xs"
| "crossing_pairs xs = []"

definition kept :: "gfloat_t \<Rightarrow> gcode_vec2d_t \<Rightarrow> bool" where
  "kept d p = (\<bar>snd p - fst p\<bar> > d)"

definition nudge :: "gfloat_t \<Rightarrow> gcode_vec2d_t \<Rightarrow> gcode_vec2d_t" where
  "nudge d p = (fst p + 0.1 * d, snd p - 0.1 * d)"

definition kept_lines :: "gfloat_t \<Rightarrow> gfloat_t list \<Rightarrow> gcode_vec2d_t list" where
  "kept_lines d xs = map (nudge d) (filter (kept d) (crossing_pairs xs))"

definition scanline_row ::
  "(gfloat_t \<Rightarrow> gfloat_t list) \<Rightarrow> (gfloat_t list \<Rightarrow> gfloat_t list) \<Rightarrow> gcode_tool_t
    \<Rightarrow> gfloat_t \<Rightarrow> gcode_pocket_row_t \<Rightarrow> bool" where
  "scanline_row eval remove_duplicate_scalars tool y row =
     (row_y row = y
      \<and> lines_of row = kept_lines (diameter tool) (remove_duplicate_scalars (sort (eval y)))
      \<and> line_num row = length (lines_of row)
      \<and> length (line_array row) = line_array_size)"

text \<open>
  The scanlines that the loop of \<^verbatim>\<open>gcode_pocket_prep\<close> visits, the first \<open>n\<close> of them at
  most: the loop starts at \<open>y\<close>, goes on while \<open>y\<close> is at or below \<open>y_max\<close>, and steps by
  the resolution, the sum rounded.
\<close>

fun scanlines ::
  "(gfloat_t \<Rightarrow> gfloat_t) \<Rightarrow> gfloat_t \<Rightarrow> gfloat_t \<Rightarrow> gfloat_t \<Rightarrow> nat \<Rightarrow> gfloat_t list" where
  "scanlines fl res y_max y 0 = []"
| "scanlines fl res y_max y (Suc n) =
     (if y \<le> y_max then y # scanlines fl res y_max (fl (y + res)) n else [])"


text \<open>
  What the comparison of one line \<open>a\<close> of grid A with one line \<open>b\<close> of grid B leaves:
  the piece that is finished (the first case leaves the part to the left of \<open>b\<close>
  behind) and the line the comparison goes on with.
\<close>

definition carve_step ::
  "gfloat_t \<Rightarrow> gcode_vec2d_t \<Rightarrow> gcode_vec2d_t \<Rightarrow> gcode_vec2d_t list \<times> gcode_vec2d_t" where
  "carve_step precision a b =
     (if case_1 precision a b then ([(fst a, fst b)], (snd b, snd a))
      else if case_2 a b then ([], (fst a, fst b))
      else if case_3 a b then ([], (snd b, snd a))
      else ([], a))"

text \<open>The lines that one line of grid A becomes after a pass over the lines \<open>bs\<close> of grid B.\<close>

fun carve :: "gfloat_t \<Rightarrow> gcode_vec2d_t \<Rightarrow> gcode_vec2d_t list \<Rightarrow> gcode_vec2d_t list" where
  "carve precision a [] = [a]"
| "carve precision a (b # bs) =
     fst (carve_step precision a b) @ carve precision (snd (carve_step precision a b)) bs"

definition carve_row ::
  "gfloat_t \<Rightarrow> gcode_vec2d_t list \<Rightarrow> gcode_vec2d_t list \<Rightarrow> gcode_vec2d_t list" where
  "carve_row precision as bs = concat (map (\<lambda>a. carve precision a bs) as)"

text \<open>A row whose line count fits its block of slots.\<close>

definition row_ok :: "gcode_pocket_row_t \<Rightarrow> bool" where
  "row_ok r = (line_num r \<le> length (line_array r))"

text \<open>
  A grid as \<^verbatim>\<open>gcode_pocket_prep\<close> leaves it: \<open>row_num\<close> rows, each with a line count that
  fits its slots.
\<close>

definition grid_ok :: "gcode_pocket_t \<Rightarrow> bool" where
  "grid_ok p = (row_num p = length (row_array p) \<and> list_all row_ok (row_array p))"

text \<open>
  The points a line covers, and the points the lines of a row cover. A line whose
  end lies before its start covers nothing.
\<close>

definition cover :: "gcode_vec2d_t \<Rightarrow> gfloat_t set" where
  "cover l = {x. fst l \<le> x \<and> x \<le> snd l}"

definition row_cover :: "gcode_pocket_row_t \<Rightarrow> gfloat_t set" where
  "row_cover r = \<Union> (cover ` set (lines_of r))"

text \<open>
  The invariant of the lines of a row, as the data model of the specification
  words it: every line has its start at or before its end, and the lines are
  ordered from left to right without overlap, that is, every line ends at or before
  the start of every line stored after it.
\<close>

definition row_inv :: "gcode_vec2d_t list \<Rightarrow> bool" where
  "row_inv ls = (list_all (\<lambda>l. fst l \<le> snd l) ls \<and> sorted_wrt (\<lambda>a b. snd a \<le> fst b) ls)"

text \<open>
  The same up to a tolerance: a start may lie after its end by at most \<open>tol\<close>, and
  every line ends at or before the start of the line stored next.
\<close>

definition row_inv_within :: "gfloat_t \<Rightarrow> gcode_vec2d_t list \<Rightarrow> bool" where
  "row_inv_within tol ls =
     (list_all (\<lambda>l. fst l \<le> snd l + tol) ls \<and> successively (\<lambda>a b. snd a \<le> fst b) ls)"

text \<open>
  The motion plan in the words of the specification. A line is cut unless it is
  narrower than the tool. The cuts of row \<open>i\<close>, each as the end where the tool goes down
  and the end where the cut stops: the lines in stored order from start to end for an
  even \<open>i\<close>, the lines in reverse stored order from end to start for an odd \<open>i\<close>.
\<close>

definition wide_enough :: "gcode_tool_t \<Rightarrow> gcode_vec2d_t \<Rightarrow> bool" where
  "wide_enough tool l = (\<not> \<bar>fst l - snd l\<bar> < diameter tool)"

definition row_cuts :: "gcode_tool_t \<Rightarrow> nat \<Rightarrow> gcode_pocket_row_t \<Rightarrow> (gfloat_t \<times> gfloat_t) list" where
  "row_cuts tool i row =
     (if even i then map (\<lambda>l. (fst l, snd l)) (filter (wide_enough tool) (lines_of row))
      else map (\<lambda>l. (snd l, fst l)) (rev (filter (wide_enough tool) (lines_of row))))"

definition row_motions ::
  "gfloat_t \<Rightarrow> gfloat_t \<Rightarrow> gfloat_t \<Rightarrow> gfloat_t \<Rightarrow> gcode_tool_t
    \<Rightarrow> nat \<Rightarrow> gcode_pocket_row_t \<Rightarrow> motion list" where
  "row_motions ztraverse precision depth rapid_depth tool i row =
     concat (map (\<lambda>c. cut_line ztraverse precision depth rapid_depth tool (fst c) (snd c) (row_y row))
                 (row_cuts tool i row))"

text \<open>
  The whole plan of a pass: the annotation of the pass depth, the cuts of the rows in
  the order of their indices, one last retract.
\<close>

definition planned_motions ::
  "(string \<Rightarrow> gfloat_t \<Rightarrow> string) \<Rightarrow> gfloat_t \<Rightarrow> gfloat_t
    \<Rightarrow> gcode_pocket_t \<Rightarrow> gfloat_t \<Rightarrow> gfloat_t \<Rightarrow> gcode_tool_t \<Rightarrow> motion list" where
  "planned_motions gsprintf ztraverse precision pocket depth rapid_depth tool =
     [APPEND [CHR 10], COMMENT (gsprintf ''Pass depth: %z'' depth), APPEND [CHR 10]]
     @ concat (map (\<lambda>i. row_motions ztraverse precision depth rapid_depth tool i
                           (row_array pocket ! i))
                   [0..<row_num pocket])
     @ [RETRACT ztraverse]"

text \<open>
  A cut with its lead-in in place: the event at position \<open>n\<close> of a stream is a feed line
  to \<open>(x, y)\<close>, and the events that end at \<open>n\<close> are the retract, the rapid move to
  \<open>(near, y)\<close>, the plunge if there is one, the descent and that line, where \<open>near\<close> and
  \<open>x\<close> are the two ends of a line of a row of the grid with that \<open>y\<close>, taken in the
  direction of the row.
\<close>

definition cut_of_grid :: "gcode_pocket_t \<Rightarrow> gfloat_t \<Rightarrow> gfloat_t \<Rightarrow> gfloat_t \<Rightarrow> bool" where
  "cut_of_grid pocket near far y =
     (\<exists>i<row_num pocket. \<exists>l\<in>set (lines_of (row_array pocket ! i)).
        y = row_y (row_array pocket ! i)
        \<and> (if even i then near = fst l \<and> far = snd l else near = snd l \<and> far = fst l))"

definition led_in ::
  "gfloat_t \<Rightarrow> gfloat_t \<Rightarrow> gfloat_t \<Rightarrow> gfloat_t \<Rightarrow> gcode_tool_t \<Rightarrow> gcode_pocket_t
    \<Rightarrow> motion list \<Rightarrow> nat \<Rightarrow> gfloat_t \<Rightarrow> gfloat_t \<Rightarrow> bool" where
  "led_in ztraverse precision depth rapid_depth tool pocket ms n x y =
     (\<exists>pre post near.
        ms = pre @ cut_line ztraverse precision depth rapid_depth tool near x y @ post
        \<and> length pre + length (cut_line ztraverse precision depth rapid_depth tool near x y) = n + 1
        \<and> cut_of_grid pocket near x y)"

definition all_led_in ::
  "gfloat_t \<Rightarrow> gfloat_t \<Rightarrow> gfloat_t \<Rightarrow> gfloat_t \<Rightarrow> gcode_tool_t \<Rightarrow> gcode_pocket_t
    \<Rightarrow> motion list \<Rightarrow> bool" where
  "all_led_in ztraverse precision depth rapid_depth tool pocket ms =
     (\<forall>n<length ms. \<forall>x y c. ms ! n = LINE_2D x y c
        \<longrightarrow> led_in ztraverse precision depth rapid_depth tool pocket ms n x y)"

section \<open>Grids for the examples\<close>

text \<open>
  A row as \<^verbatim>\<open>gcode_pocket_prep\<close> allocates it, 64 slots, holding the given lines, and a
  grid of given rows.
\<close>

definition row_of :: "gcode_vec2d_t list \<Rightarrow> gfloat_t \<Rightarrow> gcode_pocket_row_t" where
  "row_of ls y =
     \<lparr>line_array = ls @ replicate (line_array_size - length ls) (0, 0),
      line_num = length ls, row_y = y\<rparr>"

definition grid_of :: "gcode_pocket_row_t list \<Rightarrow> nat \<Rightarrow> gfloat_t \<Rightarrow> gcode_pocket_t" where
  "grid_of rows seg res =
     \<lparr>row_num = length rows, seg_num = seg, row_array = rows, resolution = res\<rparr>"

text \<open>The crossings of the two scanlines of the example for \<^verbatim>\<open>gcode_pocket_prep\<close>.\<close>

definition example_eval :: "gfloat_t \<Rightarrow> gfloat_t list" where
  "example_eval y = (if y = 0 then [5, 0, 3, 1 / 2] else [4, 1])"

text \<open>
  A grid of two rows for the examples of \<^verbatim>\<open>gcode_pocket_make\<close>; with a tool of
  diameter 1 the line \<open>(3, 3.5)\<close> of its first row is too narrow to cut.
\<close>

definition example_grid :: gcode_pocket_t where
  "example_grid =
     grid_of [row_of [(0, 2), (3, 7 / 2), (5, 9)] 0, row_of [(1, 4), (6, 8)] 1] 5 1"

section \<open>The rounding of a double\<close>

text \<open>
  An instance of the rounding \<open>fl\<close>, for a \<^verbatim>\<open>gfloat_t\<close> that is the \<^verbatim>\<open>double\<close> of IEEE 754
  (binary64): a result becomes the nearest number with a significand of 53 bits, and
  of two that are equally near the one whose last bit is zero. Only the normal range
  is covered, which the examples stay in. \<open>ulp x\<close> is the distance between the
  neighbours of \<open>x\<close> among these numbers, \<open>2 ^ (e - 52)\<close> for \<open>2 ^ e \<le> x < 2 ^ (e + 1)\<close>;
  the exponent is found by halving a number above 2 or doubling a number below 1.
\<close>

definition nearest_even :: "real \<Rightarrow> int" where
  "nearest_even x =
     (let n = \<lfloor>x\<rfloor>; r = x - of_int n in
      if r < 1 / 2 then n else if 1 / 2 < r then n + 1 else if even n then n else n + 1)"

fun halvings :: "nat \<Rightarrow> real \<Rightarrow> nat" where
  "halvings 0 x = 0"
| "halvings (Suc n) x = (if 2 \<le> x then Suc (halvings n (x / 2)) else 0)"

fun doublings :: "nat \<Rightarrow> real \<Rightarrow> nat" where
  "doublings 0 x = 0"
| "doublings (Suc n) x = (if x < 1 then Suc (doublings n (2 * x)) else 0)"

definition ulp :: "real \<Rightarrow> real" where
  "ulp x = (if 1 \<le> x then 2 ^ halvings 1023 x / 2 ^ 52
            else 1 / (2 ^ doublings 1022 x * 2 ^ 52))"

definition binary64 :: "real \<Rightarrow> real" where
  "binary64 x = (if x = 0 then 0 else ulp \<bar>x\<bar> * of_int (nearest_even (x / ulp \<bar>x\<bar>)))"

section \<open>What \<^verbatim>\<open>gcode_pocket_prep\<close> stores\<close>

lemma crossing_pairs_drop_step:
  "i + 1 < length xs \<Longrightarrow>
   crossing_pairs (drop i xs) = (xs ! i, xs ! (i + 1)) # crossing_pairs (drop (i + 2) xs)"
proof -
  assume h: "i + 1 < length xs"
  then have "drop i xs = xs ! i # xs ! (i + 1) # drop (i + 2) xs"
    by (simp add: Cons_nth_drop_Suc)
  then show ?thesis by simp
qed

lemma crossing_pairs_drop_end:
  "\<not> i + 1 < length xs \<Longrightarrow> crossing_pairs (drop i xs) = []"
proof -
  assume h: "\<not> i + 1 < length xs"
  then have "length (drop i xs) \<le> 1" by simp
  then show ?thesis by (cases "drop i xs" rule: crossing_pairs.cases) auto
qed

lemma crossing_pairs_length: "2 * length (crossing_pairs xs) \<le> length xs"
  by (induction xs rule: crossing_pairs.induct) auto

lemma kept_lines_length: "2 * length (kept_lines d xs) \<le> length xs"
proof -
  have "length (kept_lines d xs) \<le> length (crossing_pairs xs)"
    by (simp add: kept_lines_def)
  with crossing_pairs_length [of xs] show ?thesis by linarith
qed

lemma lines_of_store:
  "line_num row < length (line_array row) \<Longrightarrow>
   lines_of (row\<lparr>line_array := (line_array row)[line_num row := v],
                 line_num := line_num row + 1\<rparr>) = lines_of row @ [v]"
  by (simp add: lines_of_def take_Suc_conv_app_nth)

lemma gen_lines_sound:
  "gen_lines xs tool i row seg = Returns (row', seg') \<Longrightarrow>
     lines_of row' = lines_of row @ kept_lines (diameter tool) (drop i xs)
   \<and> line_num row' = line_num row + length (kept_lines (diameter tool) (drop i xs))
   \<and> seg' = seg + length (kept_lines (diameter tool) (drop i xs))
   \<and> length (line_array row') = length (line_array row)
   \<and> row_y row' = row_y row"
proof (induction xs tool i row seg rule: gen_lines.induct)
  case (1 x_array tool i row seg)
  show ?case
  proof (cases "i + 1 < length x_array")
    case False
    with "1.prems" show ?thesis
      by (simp add: gen_lines.simps [of x_array tool i] kept_lines_def crossing_pairs_drop_end)
  next
    case True
    note step = crossing_pairs_drop_step [OF True]
    show ?thesis
    proof (cases "\<bar>x_array ! (i + 1) - x_array ! i\<bar> > diameter tool")
      case False
      then have kl: "kept_lines (diameter tool) (drop i x_array)
                   = kept_lines (diameter tool) (drop (i + 2) x_array)"
        by (simp add: kept_lines_def step kept_def)
      from "1.prems" True False
      have "gen_lines x_array tool (i + 2) row seg = Returns (row', seg')"
        by (simp add: gen_lines.simps [of x_array tool i])
      from "1.IH"(2) [OF True False this] kl show ?thesis by simp
    next
      case wide: True
      then have kl: "kept_lines (diameter tool) (drop i x_array)
                   = (x_array ! i + 0.1 * diameter tool, x_array ! (i + 1) - 0.1 * diameter tool)
                     # kept_lines (diameter tool) (drop (i + 2) x_array)"
        by (simp add: kept_lines_def step kept_def nudge_def)
      from "1.prems" True wide have room: "line_num row < length (line_array row)"
        by (simp add: gen_lines.simps [of x_array tool i] split: if_splits)
      let ?row = "row\<lparr>line_array := (line_array row)[line_num row :=
                         (x_array ! i + 0.1 * diameter tool,
                          x_array ! (i + 1) - 0.1 * diameter tool)],
                      line_num := line_num row + 1\<rparr>"
      from "1.prems" True wide room
      have "gen_lines x_array tool (i + 2) ?row (seg + 1) = Returns (row', seg')"
        by (simp add: gen_lines.simps [of x_array tool i])
      from "1.IH"(1) [OF True wide room this] kl lines_of_store [OF room] show ?thesis
        by simp
    qed
  qed
qed

lemma gen_lines_returns:
  "line_num row + length (kept_lines (diameter tool) (drop i xs)) \<le> length (line_array row) \<Longrightarrow>
   \<exists>res. gen_lines xs tool i row seg = Returns res"
proof (induction xs tool i row seg rule: gen_lines.induct)
  case (1 x_array tool i row seg)
  show ?case
  proof (cases "i + 1 < length x_array")
    case False
    then show ?thesis
      by (simp add: gen_lines.simps [of x_array tool i])
  next
    case True
    note step = crossing_pairs_drop_step [OF True]
    show ?thesis
    proof (cases "\<bar>x_array ! (i + 1) - x_array ! i\<bar> > diameter tool")
      case False
      then have kl: "kept_lines (diameter tool) (drop i x_array)
                   = kept_lines (diameter tool) (drop (i + 2) x_array)"
        by (simp add: kept_lines_def step kept_def)
      from "1.IH"(2) [OF True False] "1.prems" kl True False show ?thesis
        by (simp add: gen_lines.simps [of x_array tool i])
    next
      case wide: True
      then have kl: "length (kept_lines (diameter tool) (drop i x_array))
                   = 1 + length (kept_lines (diameter tool) (drop (i + 2) x_array))"
        by (simp add: kept_lines_def step kept_def)
      with "1.prems" have room: "line_num row < length (line_array row)" by simp
      from "1.IH"(1) [OF True wide room] "1.prems" kl True wide room show ?thesis
        by (simp add: gen_lines.simps [of x_array tool i])
    qed
  qed
qed

lemma prep_scanline_sound:
  assumes "prep_scanline eval rds tool y seg = Returns (row, seg')"
  shows "scanline_row eval rds tool y row \<and> seg' = seg + line_num row
         \<and> length (eval y) \<le> x_array_size"
proof -
  let ?xs = "rds (sort (eval y))"
  let ?row = "\<lparr>line_array = replicate line_array_size (0, 0), line_num = 0, row_y = y\<rparr>"
  from assms have cap: "length (eval y) \<le> x_array_size"
    by (simp add: prep_scanline_def split: if_splits)
  show ?thesis
  proof (cases "length ?xs \<ge> 2")
    case True
    with assms cap have g: "gen_lines ?xs tool 0 ?row seg = Returns (row, seg')"
      by (simp add: prep_scanline_def Let_def)
    have l0: "lines_of ?row = []" by (simp add: lines_of_def)
    from gen_lines_sound [OF g] l0
    have l: "lines_of row = kept_lines (diameter tool) ?xs"
      and n: "line_num row = length (kept_lines (diameter tool) ?xs)"
      and s: "seg' = seg + length (kept_lines (diameter tool) ?xs)"
      and c: "length (line_array row) = line_array_size"
      and y: "row_y row = y"
      by simp_all
    from l n have "line_num row = length (lines_of row)" by simp
    with l n s c y cap show ?thesis
      by (simp add: scanline_row_def)
  next
    case False
    then have "crossing_pairs ?xs = []"
      using crossing_pairs_drop_end [of 0 ?xs] by simp
    with assms cap False show ?thesis
      by (auto simp: prep_scanline_def Let_def scanline_row_def lines_of_def kept_lines_def)
  qed
qed

lemma prep_scanline_returns:
  assumes "length (eval y) \<le> x_array_size" and "length (rds (sort (eval y))) \<le> length (eval y)"
  shows "\<exists>res. prep_scanline eval rds tool y seg = Returns res"
proof -
  let ?xs = "rds (sort (eval y))"
  let ?row = "\<lparr>line_array = replicate line_array_size (0, 0), line_num = 0, row_y = y\<rparr>"
  have "2 * length (kept_lines (diameter tool) ?xs) \<le> 64"
    using kept_lines_length [of "diameter tool" ?xs] assms by (simp add: x_array_size_def)
  then have "line_num ?row + length (kept_lines (diameter tool) (drop 0 ?xs)) \<le> length (line_array ?row)"
    by (simp add: line_array_size_def)
  from gen_lines_returns [OF this] assms(1) show ?thesis
    by (simp add: prep_scanline_def Let_def)
qed

lemma prep_rows_sound:
  "prep_rows fl eval rds tool alloc y_max y pocket = Returns p' \<Longrightarrow>
   \<exists>rows. row_array p' = row_array pocket @ rows
        \<and> row_num p' = row_num pocket + length rows
        \<and> resolution p' = resolution pocket
        \<and> seg_num p' = seg_num pocket + sum_list (map line_num rows)
        \<and> list_all2 (scanline_row eval rds tool)
             (scanlines fl (resolution pocket) y_max y (Suc (alloc - row_num pocket))) rows"
proof (induction fl eval rds tool alloc y_max y pocket rule: prep_rows.induct)
  case (1 fl eval rds tool alloc y_max y pocket)
  show ?case
  proof (cases "y \<le> y_max")
    case False
    with "1.prems" have "p' = pocket"
      by (simp add: prep_rows.simps [of fl eval rds tool alloc y_max y])
    with False show ?thesis by simp
  next
    case True
    with "1.prems" have room: "row_num pocket < alloc"
      by (simp add: prep_rows.simps [of fl eval rds tool alloc y_max y] split: if_splits)
    with "1.prems" True obtain row seg where
      sc: "prep_scanline eval rds tool y (seg_num pocket) = Returns (row, seg)"
      and rest: "prep_rows fl eval rds tool alloc y_max (fl (y + resolution pocket))
                   (pocket\<lparr>row_array := row_array pocket @ [row],
                           row_num := row_num pocket + 1, seg_num := seg\<rparr>) = Returns p'"
      by (auto simp: prep_rows.simps [of fl eval rds tool alloc y_max y] split: sum.splits)
    from room obtain k where k: "alloc - row_num pocket = Suc k"
      and k': "alloc - (row_num pocket + 1) = k"
      by (cases "alloc - row_num pocket") auto
    from "1.IH" [OF True room sc refl rest] k' obtain rows where
      ra: "row_array p' = (row_array pocket @ [row]) @ rows"
      and rn: "row_num p' = row_num pocket + 1 + length rows"
      and rs: "resolution p' = resolution pocket"
      and sg: "seg_num p' = seg + sum_list (map line_num rows)"
      and al: "list_all2 (scanline_row eval rds tool)
                 (scanlines fl (resolution pocket) y_max (fl (y + resolution pocket)) (Suc k)) rows"
      by auto
    from prep_scanline_sound [OF sc] have
      r0: "scanline_row eval rds tool y row" and s0: "seg = seg_num pocket + line_num row"
      by simp_all
    have ys: "scanlines fl (resolution pocket) y_max y (Suc (alloc - row_num pocket))
            = y # scanlines fl (resolution pocket) y_max (fl (y + resolution pocket)) (Suc k)"
      unfolding k using True by simp
    from r0 al have "list_all2 (scanline_row eval rds tool)
        (scanlines fl (resolution pocket) y_max y (Suc (alloc - row_num pocket))) (row # rows)"
      unfolding ys by simp
    with ra rn rs sg s0 show ?thesis
      by (intro exI [of _ "row # rows"]) simp
  qed
qed

text \<open>
  How a run of the loop ends, with \<open>k\<close> rows left of those allocated: past the crossing
  buffer when one of the next \<open>k\<close> scanlines reports more than 64 crossings, past the
  rows when the loop visits more than \<open>k\<close> scanlines, with a return otherwise.
\<close>

lemma prep_rows_outcome:
  assumes "\<forall>xs. length (rds xs) \<le> length xs"
  shows "if \<exists>y'\<in>set (take (alloc - row_num pocket)
                (scanlines fl (resolution pocket) y_max y (Suc (alloc - row_num pocket)))).
              x_array_size < length (eval y')
         then prep_rows fl eval rds tool alloc y_max y pocket = Undefined Access_past_x_array
         else if alloc - row_num pocket
                   < length (scanlines fl (resolution pocket) y_max y (Suc (alloc - row_num pocket)))
         then prep_rows fl eval rds tool alloc y_max y pocket = Undefined Store_past_row_array
         else \<exists>p'. prep_rows fl eval rds tool alloc y_max y pocket = Returns p'"
  using assms
proof (induction fl eval rds tool alloc y_max y pocket rule: prep_rows.induct)
  case (1 fl eval rds tool alloc y_max y pocket)
  show ?case
  proof (cases "y \<le> y_max")
    case False
    then show ?thesis
      by (simp add: prep_rows.simps [of fl eval rds tool alloc y_max y])
  next
    case True
    show ?thesis
    proof (cases "row_num pocket < alloc")
      case False
      then have "alloc - row_num pocket = 0" by simp
      with True False show ?thesis
        by (simp add: prep_rows.simps [of fl eval rds tool alloc y_max y])
    next
      case room: True
      then obtain k where k: "alloc - row_num pocket = Suc k"
        and k': "alloc - (row_num pocket + 1) = k"
        by (cases "alloc - row_num pocket") auto
      let ?rest = "scanlines fl (resolution pocket) y_max (fl (y + resolution pocket)) (Suc k)"
      have ys: "scanlines fl (resolution pocket) y_max y (Suc (alloc - row_num pocket)) = y # ?rest"
        unfolding k using True by simp
      show ?thesis
      proof (cases "x_array_size < length (eval y)")
        case over: True
        then have "prep_scanline eval rds tool y (seg_num pocket) = Undefined Access_past_x_array"
          by (simp add: prep_scanline_def)
        with True room have "prep_rows fl eval rds tool alloc y_max y pocket
                              = Undefined Access_past_x_array"
          by (simp add: prep_rows.simps [of fl eval rds tool alloc y_max y])
        moreover from over have "\<exists>y'\<in>set (take (alloc - row_num pocket)
                (scanlines fl (resolution pocket) y_max y (Suc (alloc - row_num pocket)))).
              x_array_size < length (eval y')"
          using True by (simp add: k)
        ultimately show ?thesis by simp
      next
        case fits: False
        then have c1: "length (eval y) \<le> x_array_size" by simp
        from "1.prems" have "length (rds (sort (eval y))) \<le> length (sort (eval y))"
          by blast
        then have c2: "length (rds (sort (eval y))) \<le> length (eval y)" by simp
        from prep_scanline_returns [of eval y rds tool "seg_num pocket", OF c1 c2]
        obtain row seg where
          sc: "prep_scanline eval rds tool y (seg_num pocket) = Returns (row, seg)"
          by (metis surj_pair)
        let ?p = "pocket\<lparr>row_array := row_array pocket @ [row],
                          row_num := row_num pocket + 1, seg_num := seg\<rparr>"
        have step: "prep_rows fl eval rds tool alloc y_max y pocket
                  = prep_rows fl eval rds tool alloc y_max (fl (y + resolution pocket)) ?p"
          using True room sc by (simp add: prep_rows.simps [of fl eval rds tool alloc y_max y])
        have rp: "alloc - row_num ?p = k" using k' by simp
        have res: "resolution ?p = resolution pocket" by simp
        note ih = "1.IH" [OF True room sc refl "1.prems", unfolded rp res]
        have a: "(\<exists>y'\<in>set (take (alloc - row_num pocket)
                (scanlines fl (resolution pocket) y_max y (Suc (alloc - row_num pocket)))).
              x_array_size < length (eval y'))
            = (\<exists>y'\<in>set (take k ?rest). x_array_size < length (eval y'))"
          using True fits by (simp add: k)
        have b: "(alloc - row_num pocket
                   < length (scanlines fl (resolution pocket) y_max y (Suc (alloc - row_num pocket))))
            = (k < length ?rest)"
          using True by (simp add: k)
        from ih show ?thesis unfolding a b step .
      qed
    qed
  qed
qed

lemma gcode_pocket_prep_sound:
  assumes "gcode_pocket_prep fl eval rds tool material_size material_origin pocket = Returns p'"
  shows "\<exists>alloc. rows_allocated fl material_size (resolution pocket) = Returns alloc
       \<and> row_num p' = length (row_array p')
       \<and> resolution p' = resolution pocket
       \<and> seg_num p' = seg_num pocket + sum_list (map line_num (row_array p'))
       \<and> list_all2 (scanline_row eval rds tool)
           (scanlines fl (resolution pocket) (fl (material_size - material_origin))
              (- material_origin) (Suc alloc))
           (row_array p')"
proof -
  let ?p = "pocket\<lparr>row_num := 0, row_array := []\<rparr>"
  from assms obtain alloc where
    a: "rows_allocated fl material_size (resolution pocket) = Returns alloc"
    and r: "prep_rows fl eval rds tool alloc (fl (material_size - material_origin))
              (- material_origin) ?p = Returns p'"
    by (auto simp: gcode_pocket_prep_def split: sum.splits)
  from prep_rows_sound [OF r] a show ?thesis by auto
qed

text \<open>
  The outcome of \<^verbatim>\<open>gcode_pocket_prep\<close> once the row count is an \<^verbatim>\<open>int\<close>, from the rows
  allocated and the scanlines visited.
\<close>

lemma gcode_pocket_prep_outcome:
  assumes "\<forall>xs. length (rds xs) \<le> length xs"
    and "rows_allocated fl material_size (resolution pocket) = Returns alloc"
    and "ys = scanlines fl (resolution pocket) (fl (material_size - material_origin))
                (- material_origin) (Suc alloc)"
  shows "if \<exists>y\<in>set (take alloc ys). x_array_size < length (eval y)
         then gcode_pocket_prep fl eval rds tool material_size material_origin pocket
                = Undefined Access_past_x_array
         else if alloc < length ys
         then gcode_pocket_prep fl eval rds tool material_size material_origin pocket
                = Undefined Store_past_row_array
         else \<exists>p'. gcode_pocket_prep fl eval rds tool material_size material_origin pocket
                = Returns p'"
proof -
  let ?p = "pocket\<lparr>row_num := 0, row_array := []\<rparr>"
  have e: "gcode_pocket_prep fl eval rds tool material_size material_origin pocket
         = prep_rows fl eval rds tool alloc (fl (material_size - material_origin))
             (- material_origin) ?p"
    using assms(2) by (simp add: gcode_pocket_prep_def)
  from prep_rows_outcome [OF assms(1), of alloc ?p fl "fl (material_size - material_origin)"
      "- material_origin" eval tool]
  show ?thesis unfolding e assms(3) by simp
qed

lemma scanline_row_ok: "scanline_row eval rds tool y row \<Longrightarrow> row_ok row"
proof -
  assume "scanline_row eval rds tool y row"
  then have "line_num row = length (lines_of row)" by (simp add: scanline_row_def)
  then have "line_num row = min (length (line_array row)) (line_num row)"
    by (simp add: lines_of_def)
  then show ?thesis by (simp add: row_ok_def)
qed

lemma gcode_pocket_prep_grid_ok:
  assumes "gcode_pocket_prep fl eval rds tool material_size material_origin pocket = Returns p'"
  shows "grid_ok p'"
proof -
  from gcode_pocket_prep_sound [OF assms] obtain ys where
    n: "row_num p' = length (row_array p')"
    and al: "list_all2 (scanline_row eval rds tool) ys (row_array p')"
    by blast
  from al have "\<forall>n<length (row_array p'). row_ok (row_array p' ! n)"
    using scanline_row_ok by (auto simp: list_all2_conv_all_nth)
  with n show ?thesis by (simp add: grid_ok_def list_all_length)
qed


subsection \<open>The pairs that are kept\<close>

lemma kept_lines_explicit:
  "kept_lines d xs
   = map (\<lambda>(a, b). (a + 0.1 * d, b - 0.1 * d))
       (filter (\<lambda>(a, b). \<bar>b - a\<bar> > d) (crossing_pairs xs))"
  by (simp add: kept_lines_def kept_def [abs_def] nudge_def [abs_def] case_prod_unfold)

lemma scanline_rows_count:
  "list_all2 (scanline_row eval rds tool) ys rows \<Longrightarrow>
   map line_num rows
   = map (\<lambda>y. length (kept_lines (diameter tool) (rds (sort (eval y))))) ys"
proof (induction ys rows rule: list_all2_induct)
  case Nil
  then show ?case by simp
next
  case (Cons y ys row rows)
  from Cons(1) have "line_num row = length (kept_lines (diameter tool) (rds (sort (eval y))))"
    by (simp add: scanline_row_def)
  with Cons show ?case by simp
qed

text \<open>
  Claim C4. Let the row count be an \<^verbatim>\<open>int\<close>, let the loop visit no more scanlines than
  rows were allocated, and let every scanline report at most 64 crossings, which the
  removal of duplicates does not lengthen. Then \<^verbatim>\<open>gcode_pocket_prep\<close> returns, with one
  row for every scanline \<open>y\<close> that the loop visits, in that order. The lines of the row
  are, in order, the consecutive pairs \<open>(a, b)\<close> of the sorted crossings of the scanline
  with \<open>\<bar>b - a\<bar>\<close> strictly greater than the tool diameter \<open>d\<close>, and no others, each
  stored as \<open>(a + 0.1 * d, b - 0.1 * d)\<close>, which is \<open>0.2 * d\<close> narrower than the pair;
  and \<^verbatim>\<open>seg_num\<close> has grown by one for every pair kept.
\<close>

theorem prep_keeps_pairs_wider_than_tool:
  assumes "rows_allocated fl material_size (resolution pocket) = Returns alloc"
    and "ys = scanlines fl (resolution pocket) (fl (material_size - material_origin))
                (- material_origin) (Suc alloc)"
    and "length ys \<le> alloc"
    and "\<forall>y\<in>set ys. length (eval y) \<le> 64"
    and "\<forall>xs. length (rds xs) \<le> length xs"
  shows "\<exists>p'. gcode_pocket_prep fl eval rds tool material_size material_origin pocket = Returns p'
       \<and> row_num p' = length ys \<and> length (row_array p') = length ys
       \<and> (\<forall>n<length ys.
             row_y (row_array p' ! n) = ys ! n
           \<and> lines_of (row_array p' ! n)
               = map (\<lambda>(a, b). (a + 0.1 * diameter tool, b - 0.1 * diameter tool))
                   (filter (\<lambda>(a, b). \<bar>b - a\<bar> > diameter tool)
                      (crossing_pairs (rds (sort (eval (ys ! n))))))
           \<and> line_num (row_array p' ! n)
               = length (filter (\<lambda>(a, b). \<bar>b - a\<bar> > diameter tool)
                           (crossing_pairs (rds (sort (eval (ys ! n)))))))
       \<and> seg_num p'
           = seg_num pocket
             + sum_list (map (\<lambda>y. length (filter (\<lambda>(a, b). \<bar>b - a\<bar> > diameter tool)
                                             (crossing_pairs (rds (sort (eval y)))))) ys)
       \<and> (\<forall>n<length ys. \<forall>l\<in>set (lines_of (row_array p' ! n)).
             \<exists>a b. (a, b) \<in> set (crossing_pairs (rds (sort (eval (ys ! n)))))
                 \<and> \<bar>b - a\<bar> > diameter tool
                 \<and> l = (a + 0.1 * diameter tool, b - 0.1 * diameter tool)
                 \<and> snd l - fst l = (b - a) - 0.2 * diameter tool)"
proof -
  let ?d = "diameter tool"
  let ?kept = "\<lambda>y. filter (\<lambda>(a, b). \<bar>b - a\<bar> > ?d) (crossing_pairs (rds (sort (eval y))))"
  let ?stored = "\<lambda>y. map (\<lambda>(a, b). (a + 0.1 * ?d, b - 0.1 * ?d)) (?kept y)"
  have "\<not> (\<exists>y\<in>set (take alloc ys). x_array_size < length (eval y))"
  proof
    assume "\<exists>y\<in>set (take alloc ys). x_array_size < length (eval y)"
    then obtain y where t: "y \<in> set (take alloc ys)" and o: "x_array_size < length (eval y)"
      by blast
    from t have "y \<in> set ys" by (rule in_set_takeD)
    with assms(4) o show False by (auto simp: x_array_size_def)
  qed
  with gcode_pocket_prep_outcome [OF assms(5,1,2), where eval = eval and tool = tool] assms(3)
  obtain p' where
    run: "gcode_pocket_prep fl eval rds tool material_size material_origin pocket = Returns p'"
    by (auto split: if_splits)
  from gcode_pocket_prep_sound [OF run] assms(1,2) have
    rn: "row_num p' = length (row_array p')"
    and sg: "seg_num p' = seg_num pocket + sum_list (map line_num (row_array p'))"
    and al: "list_all2 (scanline_row eval rds tool) ys (row_array p')"
    by auto
  from al have len: "length (row_array p') = length ys"
    by (simp add: list_all2_lengthD)
  have rows: "\<forall>n<length ys.
             row_y (row_array p' ! n) = ys ! n
           \<and> lines_of (row_array p' ! n) = ?stored (ys ! n)
           \<and> line_num (row_array p' ! n) = length (?kept (ys ! n))"
  proof (intro allI impI)
    fix n assume "n < length ys"
    with al have "scanline_row eval rds tool (ys ! n) (row_array p' ! n)"
      by (simp add: list_all2_conv_all_nth)
    then show "row_y (row_array p' ! n) = ys ! n
           \<and> lines_of (row_array p' ! n) = ?stored (ys ! n)
           \<and> line_num (row_array p' ! n) = length (?kept (ys ! n))"
      by (simp add: scanline_row_def kept_lines_explicit)
  qed
  have "map line_num (row_array p') = map (\<lambda>y. length (?kept y)) ys"
    using scanline_rows_count [OF al] by (simp add: kept_lines_explicit)
  with sg have seg: "seg_num p' = seg_num pocket + sum_list (map (\<lambda>y. length (?kept y)) ys)"
    by simp
  have wide: "\<forall>n<length ys. \<forall>l\<in>set (lines_of (row_array p' ! n)).
             \<exists>a b. (a, b) \<in> set (crossing_pairs (rds (sort (eval (ys ! n)))))
                 \<and> \<bar>b - a\<bar> > ?d
                 \<and> l = (a + 0.1 * ?d, b - 0.1 * ?d)
                 \<and> snd l - fst l = (b - a) - 0.2 * ?d"
  proof (intro allI impI ballI)
    fix n l assume n: "n < length ys" and "l \<in> set (lines_of (row_array p' ! n))"
    with rows have "l \<in> set (?stored (ys ! n))" by simp
    then obtain a b where "(a, b) \<in> set (crossing_pairs (rds (sort (eval (ys ! n)))))"
      and "\<bar>b - a\<bar> > ?d" and "l = (a + 0.1 * ?d, b - 0.1 * ?d)"
      by auto
    then show "\<exists>a b. (a, b) \<in> set (crossing_pairs (rds (sort (eval (ys ! n)))))
                 \<and> \<bar>b - a\<bar> > ?d
                 \<and> l = (a + 0.1 * ?d, b - 0.1 * ?d)
                 \<and> snd l - fst l = (b - a) - 0.2 * ?d"
      by (intro exI [of _ a] exI [of _ b]) simp
  qed
  from run rn len rows seg wide show ?thesis
    by (intro exI [of _ p']) simp
qed

text \<open>
  The theorem at a grid of two scanlines, \<open>y = 0\<close> and \<open>y = 1\<close>, with a tool of diameter
  1: of the crossings \<open>0, 1/2, 3, 5\<close> the pair \<open>(0, 1/2)\<close> is dropped and \<open>(3, 5)\<close>
  stored; of \<open>1, 4\<close> the pair \<open>(1, 4)\<close> is stored. Every number of the loop control is
  whole, so the arithmetic is exact.
\<close>

theorem prep_keeps_pairs_wider_than_tool_witness:
  "\<exists>p'. gcode_pocket_prep (\<lambda>x. x) example_eval (\<lambda>xs. xs) \<lparr>diameter = 1\<rparr> 1 0
          (gcode_pocket_init 1) = Returns p'
       \<and> row_num p' = 2
       \<and> row_y (row_array p' ! 0) = 0 \<and> row_y (row_array p' ! 1) = 1
       \<and> lines_of (row_array p' ! 0) = [(31 / 10, 49 / 10)]
       \<and> lines_of (row_array p' ! 1) = [(11 / 10, 39 / 10)]
       \<and> seg_num p' = 2"
proof -
  have a: "rows_allocated (\<lambda>x. x) 1 (resolution (gcode_pocket_init 1)) = Returns 2"
    by (simp add: rows_allocated_def gcode_pocket_init_def)
  have y: "[0, 1] = scanlines (\<lambda>x. x) (resolution (gcode_pocket_init 1)) (1 - 0) (- 0) (Suc 2)"
    by (simp add: gcode_pocket_init_def numeral_2_eq_2)
  have c: "\<forall>y\<in>set [0, 1]. length (example_eval y) \<le> 64"
    by (simp add: example_eval_def)
  have d: "\<forall>xs::gfloat_t list. length ((\<lambda>xs. xs) xs) \<le> length xs" by simp
  from prep_keeps_pairs_wider_than_tool [where fl = "\<lambda>x. x" and tool = "\<lparr>diameter = 1\<rparr>"
      and eval = example_eval and ys = "[0, 1]", OF a y _ c d]
  obtain p' where
    run: "gcode_pocket_prep (\<lambda>x. x) example_eval (\<lambda>xs. xs) \<lparr>diameter = 1\<rparr> 1 0
            (gcode_pocket_init 1) = Returns p'"
    and n: "row_num p' = 2"
    and rows: "\<forall>n<2. row_y (row_array p' ! n) = [0, 1] ! n
           \<and> lines_of (row_array p' ! n)
               = map (\<lambda>(a, b). (a + 0.1 * 1, b - 0.1 * 1))
                   (filter (\<lambda>(a, b). \<bar>b - a\<bar> > 1)
                      (crossing_pairs (sort (example_eval ([0, 1] ! n)))))"
    and seg: "seg_num p' = seg_num (gcode_pocket_init 1)
           + sum_list (map (\<lambda>y. length (filter (\<lambda>(a, b). \<bar>b - a\<bar> > 1)
                                           (crossing_pairs (sort (example_eval y))))) [0, 1])"
    by auto
  from rows have r0: "row_y (row_array p' ! 0) = 0 \<and> lines_of (row_array p' ! 0) = [(31 / 10, 49 / 10)]"
    by (simp add: example_eval_def)
  from rows have "row_y (row_array p' ! Suc 0) = 1
      \<and> lines_of (row_array p' ! Suc 0) = [(11 / 10, 39 / 10)]"
    by (simp add: example_eval_def)
  then have r1: "row_y (row_array p' ! 1) = 1 \<and> lines_of (row_array p' ! 1) = [(11 / 10, 39 / 10)]"
    by simp
  from seg have "seg_num p' = 2"
    by (simp add: example_eval_def gcode_pocket_init_def)
  with run n r0 r1 show ?thesis by blast
qed

subsection \<open>Exact arithmetic\<close>

text \<open>
  With exact arithmetic the scanlines are \<open>y + k * resolution\<close>, their number is the
  number of rows allocated, and the loop stays within them.
\<close>

lemma floor_next_scanline:
  fixes y y_max res :: real
  assumes "0 < res" and "y + res \<le> y_max"
  shows "nat \<lfloor>(y_max - (y + res)) / res\<rfloor> + 1 = nat \<lfloor>(y_max - y) / res\<rfloor>"
proof -
  have e: "(y_max - (y + res)) / res = (y_max - y) / res - 1"
    using assms(1) by (simp add: field_simps)
  have "1 \<le> (y_max - y) / res"
    using assms by (simp add: field_simps)
  then have "1 \<le> \<lfloor>(y_max - y) / res\<rfloor>" by linarith
  moreover have "\<lfloor>(y_max - y) / res - 1\<rfloor> = \<lfloor>(y_max - y) / res\<rfloor> - 1"
    by linarith
  ultimately show ?thesis unfolding e by linarith
qed

lemma scanlines_exact_length:
  assumes "0 < res"
  shows "length (scanlines (\<lambda>x. x) res y_max y n)
       = min n (if y \<le> y_max then nat \<lfloor>(y_max - y) / res\<rfloor> + 1 else 0)"
proof (induction n arbitrary: y)
  case 0
  then show ?case by simp
next
  case (Suc n)
  show ?case
  proof (cases "y \<le> y_max")
    case False
    then show ?thesis by simp
  next
    case True
    show ?thesis
    proof (cases "y + res \<le> y_max")
      case next_in: True
      from floor_next_scanline [OF assms next_in] Suc [of "y + res"] True next_in
      show ?thesis by simp
    next
      case False
      with True assms have "0 \<le> (y_max - y) / res" and "(y_max - y) / res < 1"
        by (simp_all add: field_simps)
      then have "\<lfloor>(y_max - y) / res\<rfloor> = 0" by linarith
      with Suc [of "y + res"] True False show ?thesis by simp
    qed
  qed
qed

lemma scanlines_exact_nth:
  "k < length (scanlines (\<lambda>x. x) res y_max y n) \<Longrightarrow>
   scanlines (\<lambda>x. x) res y_max y n ! k = y + real k * res"
proof (induction n arbitrary: y k)
  case 0
  then show ?case by simp
next
  case (Suc n)
  from Suc.prems have y: "y \<le> y_max" by (simp split: if_splits)
  show ?case
  proof (cases k)
    case 0
    with y show ?thesis by simp
  next
    case (Suc m)
    with Suc.prems y have "m < length (scanlines (\<lambda>x. x) res y_max (y + res) n)" by simp
    from Suc.IH [OF this] y Suc show ?thesis by (simp add: algebra_simps)
  qed
qed

lemma exact_arithmetic_fits_rows:
  assumes "0 < res" and "0 \<le> material_size" and "1 + material_size / res < 2 ^ 31"
    and "alloc = nat \<lfloor>material_size / res\<rfloor> + 1"
  shows "rows_allocated (\<lambda>x. x) material_size res = Returns alloc"
    and "length (scanlines (\<lambda>x. x) res (material_size - material_origin) (- material_origin)
                   (Suc alloc)) = alloc"
proof -
  from assms(1,2) have q: "0 \<le> material_size / res" by simp
  then have "0 \<le> \<lfloor>material_size / res\<rfloor>" by linarith
  moreover have "\<lfloor>1 + material_size / res\<rfloor> = \<lfloor>material_size / res\<rfloor> + 1" by linarith
  ultimately have "nat \<lfloor>1 + material_size / res\<rfloor> = alloc"
    using assms(4) by linarith
  with assms(1,3) q show "rows_allocated (\<lambda>x. x) material_size res = Returns alloc"
    by (simp add: rows_allocated_def Let_def)
  from assms(2) have "- material_origin \<le> material_size - material_origin" by simp
  with scanlines_exact_length [OF assms(1), of "material_size - material_origin"
      "- material_origin" "Suc alloc"] assms(4)
  show "length (scanlines (\<lambda>x. x) res (material_size - material_origin) (- material_origin)
                   (Suc alloc)) = alloc"
    by simp
qed


subsection \<open>Capacity\<close>

text \<open>
  Claim C8, amended. \<^verbatim>\<open>gcode_pocket_prep\<close> checks no capacity and reports nothing: it
  is \<^verbatim>\<open>void\<close> and has no error path. Let the row count be an \<^verbatim>\<open>int\<close>, \<open>alloc\<close> rows
  be allocated, and the removal of duplicates not lengthen the list. If one of the
  first \<open>alloc\<close> scanlines that the loop visits reports more than 64 crossings, the run
  goes past the end of the crossing buffer. If none does and the loop visits more than
  \<open>alloc\<close> scanlines, the run stores past the rows allocated. Both are undefined in C
  and neither is an error handed to the caller. In every other case the function
  returns, with one row per scanline visited, and every row has its 64 slots, at most
  32 lines in them, and holds every kept pair of its scanline, none cut off and none
  overwritten.
\<close>

theorem prep_capacity_unchecked:
  assumes "\<forall>xs. length (rds xs) \<le> length xs"
    and "rows_allocated fl material_size (resolution pocket) = Returns alloc"
    and "ys = scanlines fl (resolution pocket) (fl (material_size - material_origin))
                (- material_origin) (Suc alloc)"
  shows "if \<exists>y\<in>set (take alloc ys). 64 < length (eval y)
         then gcode_pocket_prep fl eval rds tool material_size material_origin pocket
                = Undefined Access_past_x_array
         else if alloc < length ys
         then gcode_pocket_prep fl eval rds tool material_size material_origin pocket
                = Undefined Store_past_row_array
         else \<exists>p'. gcode_pocket_prep fl eval rds tool material_size material_origin pocket
                      = Returns p'
                \<and> row_num p' = length ys
                \<and> length (row_array p') = length ys
                \<and> (\<forall>n<length ys.
                      row_y (row_array p' ! n) = ys ! n
                    \<and> length (line_array (row_array p' ! n)) = 64
                    \<and> line_num (row_array p' ! n) \<le> 32
                    \<and> lines_of (row_array p' ! n)
                        = map (\<lambda>(a, b). (a + 0.1 * diameter tool, b - 0.1 * diameter tool))
                            (filter (\<lambda>(a, b). \<bar>b - a\<bar> > diameter tool)
                               (crossing_pairs (rds (sort (eval (ys ! n)))))))"
proof -
  note outcome = gcode_pocket_prep_outcome [OF assms, where eval = eval and tool = tool]
  show ?thesis
  proof (cases "\<exists>y\<in>set (take alloc ys). 64 < length (eval y)")
    case True
    with outcome show ?thesis by (simp add: x_array_size_def)
  next
    case fits: False
    show ?thesis
    proof (cases "alloc < length ys")
      case True
      with outcome fits show ?thesis by (simp add: x_array_size_def)
    next
      case False
      with outcome fits obtain p' where
        run: "gcode_pocket_prep fl eval rds tool material_size material_origin pocket = Returns p'"
        by (auto simp: x_array_size_def)
      from gcode_pocket_prep_sound [OF run] assms(2,3) have
        rn: "row_num p' = length (row_array p')"
        and al: "list_all2 (scanline_row eval rds tool) ys (row_array p')"
        by auto
      from al have len: "length (row_array p') = length ys"
        by (simp add: list_all2_lengthD)
      from False have all: "take alloc ys = ys" by simp
      have "\<forall>n<length ys.
              row_y (row_array p' ! n) = ys ! n
            \<and> length (line_array (row_array p' ! n)) = 64
            \<and> line_num (row_array p' ! n) \<le> 32
            \<and> lines_of (row_array p' ! n)
                = map (\<lambda>(a, b). (a + 0.1 * diameter tool, b - 0.1 * diameter tool))
                    (filter (\<lambda>(a, b). \<bar>b - a\<bar> > diameter tool)
                       (crossing_pairs (rds (sort (eval (ys ! n))))))"
      proof (intro allI impI)
        fix n assume n: "n < length ys"
        let ?y = "ys ! n" and ?r = "row_array p' ! n"
        from al n have "scanline_row eval rds tool ?y ?r"
          by (simp add: list_all2_conv_all_nth)
        then have y: "row_y ?r = ?y"
          and l: "lines_of ?r = kept_lines (diameter tool) (rds (sort (eval ?y)))"
          and c: "line_num ?r = length (lines_of ?r)"
          and a: "length (line_array ?r) = line_array_size"
          by (simp_all add: scanline_row_def)
        from n have "?y \<in> set ys" by simp
        with fits all have "length (eval ?y) \<le> 64" by auto
        moreover from assms(1) have "length (rds (sort (eval ?y))) \<le> length (sort (eval ?y))"
          by blast
        ultimately have "length (rds (sort (eval ?y))) \<le> 64" by simp
        with kept_lines_length [of "diameter tool" "rds (sort (eval ?y))"] c l
        have "line_num ?r \<le> 32" by simp
        with a l y show "row_y ?r = ?y
            \<and> length (line_array ?r) = 64
            \<and> line_num ?r \<le> 32
            \<and> lines_of ?r
                = map (\<lambda>(a, b). (a + 0.1 * diameter tool, b - 0.1 * diameter tool))
                    (filter (\<lambda>(a, b). \<bar>b - a\<bar> > diameter tool)
                       (crossing_pairs (rds (sort (eval ?y)))))"
          by (simp add: line_array_size_def kept_lines_explicit)
      qed
      with run rn len fits False show ?thesis by auto
    qed
  qed
qed

text \<open>
  Claim C8 as stated fails: one scanline, at \<open>y = 0\<close>, that reports 65 crossings, at
  \<open>x = 0, 1, ..., 64\<close>. \<^verbatim>\<open>x_index\<close> comes back as 65 and \<^verbatim>\<open>qsort\<close> is called on 65
  elements of \<^verbatim>\<open>gfloat_t x_array[64]\<close>; the function has no check before or after the
  callbacks and no way to report. Every number of the loop control is whole, so the
  arithmetic is exact.
\<close>

theorem prep_capacity_counterexample:
  "gcode_pocket_prep (\<lambda>x. x) (\<lambda>y. map real [0..<65]) (\<lambda>xs. xs) \<lparr>diameter = 1 / 2\<rparr> 0 0
     (gcode_pocket_init 1) = Undefined Access_past_x_array"
  by (simp add: gcode_pocket_prep_def rows_allocated_def gcode_pocket_init_def prep_rows.simps
      prep_scanline_def x_array_size_def)

text \<open>The amended claim at the grid of two scanlines of the example.\<close>

theorem prep_capacity_unchecked_witness:
  "\<exists>p'. gcode_pocket_prep (\<lambda>x. x) example_eval (\<lambda>xs. xs) \<lparr>diameter = 1\<rparr> 1 0
          (gcode_pocket_init 1) = Returns p'
     \<and> row_num p' = 2
     \<and> line_num (row_array p' ! 0) \<le> 32
     \<and> length (line_array (row_array p' ! 0)) = 64
     \<and> lines_of (row_array p' ! 0) = [(31 / 10, 49 / 10)]"
proof -
  have d: "\<forall>xs::gfloat_t list. length ((\<lambda>xs. xs) xs) \<le> length xs" by simp
  have a: "rows_allocated (\<lambda>x. x) 1 (resolution (gcode_pocket_init 1)) = Returns 2"
    by (simp add: rows_allocated_def gcode_pocket_init_def)
  have y: "[0, 1] = scanlines (\<lambda>x. x) (resolution (gcode_pocket_init 1)) (1 - 0) (- 0) (Suc 2)"
    by (simp add: gcode_pocket_init_def numeral_2_eq_2)
  have c: "\<not> (\<exists>y\<in>set (take 2 [0, 1]). 64 < length (example_eval y))"
    by (simp add: example_eval_def)
  from prep_capacity_unchecked [where fl = "\<lambda>x. x" and tool = "\<lparr>diameter = 1\<rparr>"
      and eval = example_eval and ys = "[0, 1]", OF d a y] c
  obtain p' where
    run: "gcode_pocket_prep (\<lambda>x. x) example_eval (\<lambda>xs. xs) \<lparr>diameter = 1\<rparr> 1 0
            (gcode_pocket_init 1) = Returns p'"
    and n: "row_num p' = 2"
    and rows: "\<forall>n<2. length (line_array (row_array p' ! n)) = 64
           \<and> line_num (row_array p' ! n) \<le> 32
           \<and> lines_of (row_array p' ! n)
               = map (\<lambda>(a, b). (a + 0.1 * 1, b - 0.1 * 1))
                   (filter (\<lambda>(a, b). \<bar>b - a\<bar> > 1)
                      (crossing_pairs (sort (example_eval ([0, 1] ! n)))))"
    by auto
  from rows have "length (line_array (row_array p' ! 0)) = 64
      \<and> line_num (row_array p' ! 0) \<le> 32
      \<and> lines_of (row_array p' ! 0) = [(31 / 10, 49 / 10)]"
    by (simp add: example_eval_def)
  with run n show ?thesis by blast
qed


subsection \<open>More scanlines than rows\<close>

text \<open>
  With the arithmetic of a \<^verbatim>\<open>double\<close>, a resolution of \<open>0.1\<close> and a material size of
  \<open>0.6\<close> (the doubles nearest to them): the quotient is rounded to
  \<open>5.999999999999999\<close>, so \<^verbatim>\<open>(int)(1 + 0.6 / 0.1)\<close> is 6 and six rows are allocated;
  the sums \<^verbatim>\<open>y += 0.1\<close> reach \<open>0.6\<close> exactly at the seventh scanline, which the loop
  enters, and whose row is stored past the six allocated.
\<close>

lemma halvings_unfold:
  "halvings n x = (if n = 0 then 0 else if 2 \<le> x then Suc (halvings (n - 1) (x / 2)) else 0)"
  by (cases n) simp_all

lemma doublings_unfold:
  "doublings n x = (if n = 0 then 0 else if x < 1 then Suc (doublings (n - 1) (2 * x)) else 0)"
  by (cases n) simp_all

lemmas run_binary64 =
  binary64_def ulp_def doublings_unfold halvings_unfold nearest_even_def Let_def

lemma binary64_tenth: "binary64 (1 / 10) = 3602879701896397 / 36028797018963968"
  by (simp add: run_binary64)

lemma binary64_six_tenths: "binary64 (6 / 10) = 5404319552844595 / 9007199254740992"
  by (simp add: run_binary64)

lemma binary64_quotient:
  "binary64 (binary64 (6 / 10) / binary64 (1 / 10)) = 6755399441055743 / 1125899906842624"
  by (simp add: run_binary64)

lemma binary64_rows_allocated:
  "rows_allocated binary64 (binary64 (6 / 10)) (binary64 (1 / 10)) = Returns 6"
  by (simp add: rows_allocated_def run_binary64)

lemma binary64_scanlines:
  "scanlines binary64 (binary64 (1 / 10)) (binary64 (binary64 (6 / 10) - 0)) (- 0) (Suc 6)
   = [0, 3602879701896397 / 36028797018963968, 3602879701896397 / 18014398509481984,
      1351079888211149 / 4503599627370496, 3602879701896397 / 9007199254740992, 1 / 2,
      5404319552844595 / 9007199254740992]"
  by (simp add: run_binary64 eval_nat_numeral)

lemma prep_stores_past_rows_with_binary64:
  "gcode_pocket_prep binary64 (\<lambda>y. []) (\<lambda>xs. xs) \<lparr>diameter = 1\<rparr> (binary64 (6 / 10)) 0
     (gcode_pocket_init (binary64 (1 / 10))) = Undefined Store_past_row_array"
proof -
  have d: "\<forall>xs::gfloat_t list. length ((\<lambda>xs. xs) xs) \<le> length xs" by simp
  have a: "rows_allocated binary64 (binary64 (6 / 10))
             (resolution (gcode_pocket_init (binary64 (1 / 10)))) = Returns 6"
    using binary64_rows_allocated by (simp add: gcode_pocket_init_def)
  from gcode_pocket_prep_outcome [OF d a refl, where eval = "\<lambda>y. []"
      and tool = "\<lparr>diameter = 1\<rparr>" and material_origin = 0]
  show ?thesis using binary64_scanlines by (simp add: gcode_pocket_init_def)
qed

text \<open>When the row count is no \<^verbatim>\<open>int\<close>, the conversion of line 66 is where the run ends.\<close>

lemma gcode_pocket_prep_no_row_count:
  "rows_allocated fl material_size (resolution pocket) = Undefined u \<Longrightarrow>
   gcode_pocket_prep fl eval rds tool material_size material_origin pocket = Undefined u"
  by (simp add: gcode_pocket_prep_def)

lemma gcode_pocket_prep_zero_resolution:
  "resolution pocket = 0 \<Longrightarrow>
   gcode_pocket_prep fl eval rds tool material_size material_origin pocket
   = Undefined Row_count_not_an_int"
  by (simp add: gcode_pocket_prep_def rows_allocated_def)


subsection \<open>The rows of a prepared grid\<close>

text \<open>
  When \<^verbatim>\<open>remove_duplicate_scalars\<close> leaves a sorted array sorted and the diameter of
  the tool is not negative, every row that \<^verbatim>\<open>gcode_pocket_prep\<close> stores has its lines
  in order left to right, each with its start before its end, and each wider than
  eight tenths of the diameter.
\<close>

lemma crossing_pairs_members:
  "p \<in> set (crossing_pairs xs) \<Longrightarrow> fst p \<in> set xs \<and> snd p \<in> set xs"
  by (induction xs arbitrary: p rule: crossing_pairs.induct) auto

lemma crossing_pairs_sorted:
  "sorted xs \<Longrightarrow>
   list_all (\<lambda>p. fst p \<le> snd p) (crossing_pairs xs)
   \<and> sorted_wrt (\<lambda>p q. snd p \<le> fst q) (crossing_pairs xs)"
proof (induction xs rule: crossing_pairs.induct)
  case (1 a b xs)
  from "1.prems" have ab: "a \<le> b" and sx: "sorted xs" and bx: "\<forall>x\<in>set xs. b \<le> x"
    by auto
  from bx have "\<forall>q\<in>set (crossing_pairs xs). b \<le> fst q"
    using crossing_pairs_members by blast
  with "1.IH" [OF sx] ab show ?case by simp
qed simp_all

lemma kept_lines_satisfy_invariant:
  assumes "sorted xs" and "0 \<le> d"
  shows "row_inv (kept_lines d xs)"
    and "\<forall>l\<in>set (kept_lines d xs). 0.8 * d < snd l - fst l"
proof -
  from crossing_pairs_sorted [OF assms(1)] have
    a: "list_all (\<lambda>p. fst p \<le> snd p) (crossing_pairs xs)"
    and s: "sorted_wrt (\<lambda>p q. snd p \<le> fst q) (crossing_pairs xs)"
    by simp_all
  from s have "sorted_wrt (\<lambda>p q. snd p \<le> fst q) (filter (kept d) (crossing_pairs xs))"
    by (rule sorted_wrt_filter)
  then have "sorted_wrt (\<lambda>p q. snd (nudge d p) \<le> fst (nudge d q))
               (filter (kept d) (crossing_pairs xs))"
    by (rule sorted_wrt_mono_rel [rotated]) (use assms(2) in \<open>simp add: nudge_def\<close>)
  then have o: "sorted_wrt (\<lambda>a b. snd a \<le> fst b) (kept_lines d xs)"
    by (simp add: kept_lines_def sorted_wrt_map)
  have w: "\<forall>l\<in>set (kept_lines d xs). 0.8 * d < snd l - fst l"
  proof
    fix l assume "l \<in> set (kept_lines d xs)"
    then obtain p where p: "p \<in> set (crossing_pairs xs)" and k: "kept d p" and l: "l = nudge d p"
      by (auto simp: kept_lines_def)
    from p a have "fst p \<le> snd p" by (simp add: list_all_iff)
    with k have "d < snd p - fst p" by (simp add: kept_def)
    with l show "0.8 * d < snd l - fst l" by (simp add: nudge_def)
  qed
  with assms(2) have "list_all (\<lambda>l. fst l \<le> snd l) (kept_lines d xs)"
    by (auto simp: list_all_iff)
  with o show "row_inv (kept_lines d xs)" by (simp add: row_inv_def)
  from w show "\<forall>l\<in>set (kept_lines d xs). 0.8 * d < snd l - fst l" .
qed

lemma gcode_pocket_prep_rows_satisfy_invariant:
  assumes "gcode_pocket_prep fl eval rds tool material_size material_origin pocket = Returns p'"
    and "\<forall>xs. sorted xs \<longrightarrow> sorted (rds xs)" and "0 \<le> diameter tool"
  shows "list_all (\<lambda>r. row_inv (lines_of r)) (row_array p')"
    and "\<forall>r\<in>set (row_array p'). \<forall>l\<in>set (lines_of r). 0.8 * diameter tool < snd l - fst l"
proof -
  from gcode_pocket_prep_sound [OF assms(1)] obtain ys where
    al: "list_all2 (scanline_row eval rds tool) ys (row_array p')"
    by blast
  have k: "\<forall>r\<in>set (row_array p'). \<exists>xs. sorted xs \<and> lines_of r = kept_lines (diameter tool) xs"
  proof
    fix r assume "r \<in> set (row_array p')"
    then obtain m where "m < length (row_array p')" and "r = row_array p' ! m"
      by (auto simp: in_set_conv_nth)
    with al have "lines_of r = kept_lines (diameter tool) (rds (sort (eval (ys ! m))))"
      by (simp add: list_all2_conv_all_nth scanline_row_def)
    moreover from assms(2) have "sorted (rds (sort (eval (ys ! m))))"
      by simp
    ultimately show "\<exists>xs. sorted xs \<and> lines_of r = kept_lines (diameter tool) xs" by blast
  qed
  with kept_lines_satisfy_invariant(1) [OF _ assms(3)]
  show "list_all (\<lambda>r. row_inv (lines_of r)) (row_array p')"
    by (auto simp: list_all_iff)
  from k kept_lines_satisfy_invariant(2) [OF _ assms(3)]
  show "\<forall>r\<in>set (row_array p'). \<forall>l\<in>set (lines_of r). 0.8 * diameter tool < snd l - fst l"
    by metis
qed


section \<open>What \<^verbatim>\<open>gcode_pocket_subtract\<close> computes\<close>

text \<open>
  The loops over slots and counters compute, on the lines in use of every row, the
  function \<open>carve_row\<close>. The lemmas follow the loops from the innermost outwards.
\<close>

lemma shift_up_sound:
  "shift_up arr l j = Returns arr' \<Longrightarrow>
     length arr' = length arr
   \<and> (j < l \<longrightarrow> l + 1 < length arr)
   \<and> (\<forall>m<length arr. arr' ! m = (if j + 1 < m \<and> m \<le> l + 1 then arr ! (m - 1) else arr ! m))"
proof (induction arr l j arbitrary: arr' rule: shift_up.induct)
  case (1 arr l j)
  show ?case
  proof (cases "l > j")
    case False
    with "1.prems" show ?thesis
      by (auto simp: shift_up.simps [of arr l j])
  next
    case True
    with "1.prems" have room: "l + 1 < length arr"
      by (simp add: shift_up.simps [of arr l j] split: if_splits)
    with "1.prems" True have r: "shift_up (arr[l + 1 := arr ! l]) (l - 1) j = Returns arr'"
      by (simp add: shift_up.simps [of arr l j])
    from "1.IH" [OF True room r] have
      len: "length arr' = length arr"
      and nth: "\<forall>m<length arr. arr' ! m
            = (if j + 1 < m \<and> m \<le> l - 1 + 1 then (arr[l + 1 := arr ! l]) ! (m - 1)
               else (arr[l + 1 := arr ! l]) ! m)"
      by simp_all
    have "\<forall>m<length arr. arr' ! m = (if j + 1 < m \<and> m \<le> l + 1 then arr ! (m - 1) else arr ! m)"
    proof (intro allI impI)
      fix m assume m: "m < length arr"
      with nth have e: "arr' ! m
            = (if j + 1 < m \<and> m \<le> l - 1 + 1 then (arr[l + 1 := arr ! l]) ! (m - 1)
               else (arr[l + 1 := arr ! l]) ! m)" by simp
      show "arr' ! m = (if j + 1 < m \<and> m \<le> l + 1 then arr ! (m - 1) else arr ! m)"
        using True room m unfolding e by (auto simp: nth_list_update)
    qed
    with len room show ?thesis by simp
  qed
qed

lemma shift_up_returns:
  "l \<le> j \<or> l + 1 < length arr \<Longrightarrow> \<exists>arr'. shift_up arr l j = Returns arr'"
proof (induction arr l j rule: shift_up.induct)
  case (1 arr l j)
  show ?case
  proof (cases "l > j")
    case False
    then show ?thesis by (simp add: shift_up.simps [of arr l j])
  next
    case True
    with "1.prems" have room: "l + 1 < length arr" by simp
    then have "l - 1 \<le> j \<or> l - 1 + 1 < length (arr[l + 1 := arr ! l])"
      by (cases l) auto
    from "1.IH" [OF True room this] True room show ?thesis
      by (simp add: shift_up.simps [of arr l j])
  qed
qed

text \<open>Insertion of a line after slot j, on the lines in use.\<close>

lemma split_lines:
  assumes sh: "shift_up arr (n - 1) j = Returns arr'" and j: "j < n" and n: "n < length arr"
  shows "take (n + 1) (arr'[j + 1 := v, j := u])
       = take j (take n arr) @ [u, v] @ drop (j + 1) (take n arr)"
proof (rule nth_equalityI)
  from shift_up_sound [OF sh] have len: "length arr' = length arr"
    and nth: "\<And>m. m < length arr \<Longrightarrow>
           arr' ! m = (if j + 1 < m \<and> m \<le> n - 1 + 1 then arr ! (m - 1) else arr ! m)"
    by simp_all
  show "length (take (n + 1) (arr'[j + 1 := v, j := u]))
      = length (take j (take n arr) @ [u, v] @ drop (j + 1) (take n arr))"
    using len j n by simp
  fix m assume "m < length (take (n + 1) (arr'[j + 1 := v, j := u]))"
  with len n have m: "m < n + 1" by simp
  consider "m < j" | "m = j" | "m = j + 1" | "j + 1 < m" by linarith
  then show "take (n + 1) (arr'[j + 1 := v, j := u]) ! m
           = (take j (take n arr) @ [u, v] @ drop (j + 1) (take n arr)) ! m"
  proof cases
    case 1
    with m j n len nth [of m] show ?thesis
      by (simp add: nth_append)
  next
    case 2
    with m j n len show ?thesis
      by (simp add: nth_append)
  next
    case 3
    with m j n len show ?thesis
      by (simp add: nth_append)
  next
    case 4
    with m j n len nth [of m] have "arr' ! m = arr ! (m - 1)" by simp
    moreover from 4 have "Suc (m - 2) = m - Suc 0" by simp
    with 4 m j n have "(take j (take n arr) @ [u, v] @ drop (j + 1) (take n arr)) ! m
        = arr ! (m - 1)"
      by (simp add: nth_append min_def)
    ultimately show ?thesis using 4 m j n len by simp
  qed
qed

lemma lines_of_update:
  "j < line_num ra \<Longrightarrow> row_ok ra \<Longrightarrow>
   lines_of (ra\<lparr>line_array := (line_array ra)[j := v]\<rparr>)
     = take j (lines_of ra) @ [v] @ drop (j + 1) (lines_of ra)"
proof -
  assume j: "j < line_num ra" and ok: "row_ok ra"
  then have "j < length (lines_of ra)" by (simp add: lines_of_def row_ok_def)
  from upd_conv_take_nth_drop [OF this, of v]
  have "(lines_of ra)[j := v] = take j (lines_of ra) @ [v] @ drop (j + 1) (lines_of ra)"
    by simp
  moreover have "lines_of (ra\<lparr>line_array := (line_array ra)[j := v]\<rparr>) = (lines_of ra)[j := v]"
    by (simp add: lines_of_def take_update_swap)
  ultimately show ?thesis by simp
qed

lemma lines_of_same:
  "j < line_num ra \<Longrightarrow> row_ok ra \<Longrightarrow>
   lines_of ra = take j (lines_of ra) @ [lines_of ra ! j] @ drop (j + 1) (lines_of ra)"
  using id_take_nth_drop [of j "lines_of ra"] by (simp add: lines_of_def row_ok_def)

lemma subtract_line_sound:
  assumes r: "subtract_line p ra rb j k = Returns (ra', j')"
    and j: "j < line_num ra" and ok: "row_ok ra"
    and k: "k < line_num rb" and okb: "row_ok rb"
  shows "lines_of ra' = take j (lines_of ra)
            @ fst (carve_step p (lines_of ra ! j) (lines_of rb ! k))
            @ [snd (carve_step p (lines_of ra ! j) (lines_of rb ! k))]
            @ drop (j + 1) (lines_of ra)
       \<and> j' = j + length (fst (carve_step p (lines_of ra ! j) (lines_of rb ! k)))
       \<and> row_ok ra'
       \<and> length (line_array ra') = length (line_array ra)
       \<and> row_y ra' = row_y ra"
proof -
  define a where "a = line_array ra ! j"
  define b where "b = line_array rb ! k"
  from j ok have ja: "j < length (line_array ra)" by (simp add: row_ok_def)
  from k okb have kb: "k < length (line_array rb)" by (simp add: row_ok_def)
  from j ok have la: "lines_of ra ! j = a" by (simp add: lines_of_def a_def)
  from k okb have lb: "lines_of rb ! k = b" by (simp add: lines_of_def b_def)
  consider
    (c1) "case_1 p a b"
  | (c2) "\<not> case_1 p a b" "case_2 a b"
  | (c3) "\<not> case_1 p a b" "\<not> case_2 a b" "case_3 a b"
  | (c4) "\<not> case_1 p a b" "\<not> case_2 a b" "\<not> case_3 a b"
    by blast
  then show ?thesis
  proof cases
    case c1
    then have cs: "carve_step p a b = ([(fst a, fst b)], (snd b, snd a))"
      by (simp add: carve_step_def)
    from r ja kb c1 have e:
      "(case shift_up (line_array ra) (line_num ra - 1) j of
          Undefined u \<Rightarrow> Undefined u
        | Returns arr \<Rightarrow>
            if j + 1 < length arr then
              Returns (ra\<lparr>line_array := arr[j + 1 := (snd b, snd (arr ! j)),
                                         j := (fst (arr ! j), fst b)],
                       line_num := line_num ra + 1\<rparr>, j + 1)
            else Undefined Store_past_line_array) = Returns (ra', j')"
      unfolding subtract_line_def Let_def a_def b_def by simp
    then obtain arr where sh: "shift_up (line_array ra) (line_num ra - 1) j = Returns arr"
      by (cases "shift_up (line_array ra) (line_num ra - 1) j") simp_all
    from e have room: "j + 1 < length arr"
      unfolding sh by (simp split: if_splits)
    from e room have ra': "ra' = ra\<lparr>line_array := arr[j + 1 := (snd b, snd (arr ! j)),
                                         j := (fst (arr ! j), fst b)],
                         line_num := line_num ra + 1\<rparr>"
      and j': "j' = j + 1"
      unfolding sh by auto
    from shift_up_sound [OF sh] ja have len: "length arr = length (line_array ra)"
      and up: "j < line_num ra - 1 \<longrightarrow> line_num ra - 1 + 1 < length (line_array ra)"
      and aj: "arr ! j = a"
      by (simp_all add: a_def)
    have n: "line_num ra < length (line_array ra)"
    proof (cases "j < line_num ra - 1")
      case True
      with up show ?thesis by simp
    next
      case False
      with j have "line_num ra = j + 1" by simp
      with room len show ?thesis by simp
    qed
    from split_lines [OF sh j n, of "(snd b, snd a)" "(fst a, fst b)"]
    have "lines_of ra' = take j (lines_of ra) @ [(fst a, fst b), (snd b, snd a)]
                           @ drop (j + 1) (lines_of ra)"
      by (simp add: ra' aj lines_of_def)
    with cs j' n len show ?thesis
      by (simp add: la lb ra' row_ok_def)
  next
    case c2
    then have cs: "carve_step p a b = ([], (fst a, fst b))"
      by (simp add: carve_step_def)
    from r ja kb c2 have "ra' = ra\<lparr>line_array := (line_array ra)[j := (fst a, fst b)]\<rparr>"
      and "j' = j"
      by (auto simp: subtract_line_def Let_def a_def b_def)
    with cs lines_of_update [OF j ok, of "(fst a, fst b)"] ok show ?thesis
      by (simp add: la lb row_ok_def)
  next
    case c3
    then have cs: "carve_step p a b = ([], (snd b, snd a))"
      by (simp add: carve_step_def)
    from r ja kb c3 have "ra' = ra\<lparr>line_array := (line_array ra)[j := (snd b, snd a)]\<rparr>"
      and "j' = j"
      by (auto simp: subtract_line_def Let_def a_def b_def)
    with cs lines_of_update [OF j ok, of "(snd b, snd a)"] ok show ?thesis
      by (simp add: la lb row_ok_def)
  next
    case c4
    then have cs: "carve_step p a b = ([], a)"
      by (simp add: carve_step_def)
    from r ja kb c4 have "ra' = ra" and "j' = j"
      by (auto simp: subtract_line_def Let_def a_def b_def)
    with cs lines_of_same [OF j ok] ok show ?thesis
      by (simp add: la lb)
  qed
qed

lemma lines_of_length: "row_ok r \<Longrightarrow> length (lines_of r) = line_num r"
  by (simp add: lines_of_def row_ok_def)

lemma around_nth:
  assumes "m = length pre + length mid"
  shows "(pre @ mid @ [c] @ post) ! m = c"
    and "take m (pre @ mid @ [c] @ post) = pre @ mid"
    and "drop (m + 1) (pre @ mid @ [c] @ post) = post"
    and "take (m + 1) (pre @ mid @ [c] @ post) = pre @ mid @ [c]"
  using assms by (simp_all add: nth_append)

lemma split_at_length:
  "m = length xs \<Longrightarrow> take m (xs @ ys) = xs \<and> drop m (xs @ ys) = ys"
  by simp

lemma subtract_lines_sound:
  assumes "subtract_lines p ra rb j k = Returns (ra', j')"
    and "j < line_num ra" and "row_ok ra" and "row_ok rb"
  shows "lines_of ra' = take j (lines_of ra)
            @ carve p (lines_of ra ! j) (drop k (lines_of rb))
            @ drop (j + 1) (lines_of ra)
       \<and> j' + 1 = j + length (carve p (lines_of ra ! j) (drop k (lines_of rb)))
       \<and> row_ok ra'
       \<and> length (line_array ra') = length (line_array ra)
       \<and> row_y ra' = row_y ra"
  using assms
proof (induction p ra rb j k rule: subtract_lines.induct)
  case (1 p ra rb j k)
  note j = \<open>j < line_num ra\<close> and ok = \<open>row_ok ra\<close> and okb = \<open>row_ok rb\<close>
  show ?case
  proof (cases "k < line_num rb")
    case False
    with "1.prems"(1) have "ra' = ra" and "j' = j"
      by (simp_all add: subtract_lines.simps [of p ra rb j k])
    moreover from False okb have "drop k (lines_of rb) = []"
      by (simp add: lines_of_length)
    ultimately show ?thesis using lines_of_same [OF j ok] ok by simp
  next
    case True
    with "1.prems"(1) obtain r1 j1 where
      s: "subtract_line p ra rb j k = Returns (r1, j1)"
      and t: "subtract_lines p r1 rb j1 (k + 1) = Returns (ra', j')"
      by (auto simp: subtract_lines.simps [of p ra rb j k] split: sum.splits)
    let ?L = "lines_of ra"
    let ?a = "?L ! j" and ?b = "lines_of rb ! k"
    let ?done = "fst (carve_step p ?a ?b)" and ?cur = "snd (carve_step p ?a ?b)"
    from subtract_line_sound [OF s j ok True okb] have
      l1: "lines_of r1 = take j ?L @ ?done @ [?cur] @ drop (j + 1) ?L"
      and j1: "j1 = j + length ?done"
      and ok1: "row_ok r1"
      and len1: "length (line_array r1) = length (line_array ra)"
      and y1: "row_y r1 = row_y ra"
      by simp_all
    from j ok have jl: "j < length ?L" by (simp add: lines_of_length)
    then have m: "j1 = length (take j ?L) + length ?done" using j1 by simp
    from l1 m have "j1 < length (lines_of r1)" by simp
    with ok1 have j1n: "j1 < line_num r1" by (simp add: lines_of_length)
    from "1.IH" [OF True s refl t j1n ok1 okb] have
      l': "lines_of ra' = take j1 (lines_of r1)
              @ carve p (lines_of r1 ! j1) (drop (k + 1) (lines_of rb))
              @ drop (j1 + 1) (lines_of r1)"
      and j'': "j' + 1 = j1 + length (carve p (lines_of r1 ! j1) (drop (k + 1) (lines_of rb)))"
      and rest: "row_ok ra'" "length (line_array ra') = length (line_array r1)"
                "row_y ra' = row_y r1"
      by simp_all
    from True okb have "k < length (lines_of rb)" by (simp add: lines_of_length)
    then have dk: "drop k (lines_of rb) = ?b # drop (k + 1) (lines_of rb)"
      by (simp add: Cons_nth_drop_Suc)
    have "lines_of ra' = take j ?L @ (?done @ carve p ?cur (drop (k + 1) (lines_of rb)))
              @ drop (j + 1) ?L"
      unfolding l' l1 around_nth [OF m] by simp
    moreover have "j' + 1 = j + length (?done @ carve p ?cur (drop (k + 1) (lines_of rb)))"
      using j'' j1 unfolding l1 around_nth [OF m] by simp
    ultimately show ?thesis using rest len1 y1 unfolding dk by simp
  qed
qed

lemma carve_row_Cons: "carve_row p (a # as) bs = carve p a bs @ carve_row p as bs"
  by (simp add: carve_row_def)

lemma subtract_row_sound:
  assumes "subtract_row p ra rows_b i j = Returns ra'"
    and "row_ok ra" and "i < length rows_b \<longrightarrow> row_ok (rows_b ! i)"
  shows "lines_of ra' = take j (lines_of ra)
            @ carve_row p (drop j (lines_of ra)) (lines_of (rows_b ! i))
       \<and> row_ok ra'
       \<and> length (line_array ra') = length (line_array ra)
       \<and> row_y ra' = row_y ra"
  using assms
proof (induction p ra rows_b i j rule: subtract_row.induct)
  case (1 p ra rows_b i j)
  note ok = \<open>row_ok ra\<close>
  show ?case
  proof (cases "j < line_num ra")
    case False
    with "1.prems"(1) have "ra' = ra"
      by (simp add: subtract_row.simps [of p ra rows_b i j])
    moreover from False ok have "drop j (lines_of ra) = []" "take j (lines_of ra) = lines_of ra"
      by (simp_all add: lines_of_length)
    ultimately show ?thesis using ok by (simp add: carve_row_def)
  next
    case True
    with "1.prems"(1) have i: "i < length rows_b"
      by (simp add: subtract_row.simps [of p ra rows_b i j] split: if_splits)
    with "1.prems"(3) have okb: "row_ok (rows_b ! i)" by simp
    from "1.prems"(1) True i obtain r1 j1 where
      s: "subtract_lines p ra (rows_b ! i) j 0 = Returns (r1, j1)"
      and t: "subtract_row p r1 rows_b i (j1 + 1) = Returns ra'"
      by (auto simp: subtract_row.simps [of p ra rows_b i j] split: sum.splits)
    let ?L = "lines_of ra" and ?B = "lines_of (rows_b ! i)"
    let ?c = "carve p (?L ! j) ?B"
    from subtract_lines_sound [OF s True ok okb] have
      l1: "lines_of r1 = take j ?L @ ?c @ drop (j + 1) ?L"
      and j1: "j1 + 1 = j + length ?c"
      and ok1: "row_ok r1"
      and len1: "length (line_array r1) = length (line_array ra)"
      and y1: "row_y r1 = row_y ra"
      by simp_all
    from "1.IH" [OF True i s refl t ok1 "1.prems"(3)] have
      l': "lines_of ra' = take (j1 + 1) (lines_of r1)
              @ carve_row p (drop (j1 + 1) (lines_of r1)) ?B"
      and rest: "row_ok ra'" "length (line_array ra') = length (line_array r1)"
                "row_y ra' = row_y r1"
      by simp_all
    from True ok have jl: "j < length ?L" by (simp add: lines_of_length)
    then have m: "j1 + 1 = length (take j ?L @ ?c)" using j1 by simp
    from l1 have l1': "lines_of r1 = (take j ?L @ ?c) @ drop (j + 1) ?L" by simp
    have tk: "take (j1 + 1) (lines_of r1) = take j ?L @ ?c"
      unfolding l1' by (rule conjunct1 [OF split_at_length [OF m]])
    have dr: "drop (j1 + 1) (lines_of r1) = drop (j + 1) ?L"
      unfolding l1' by (rule conjunct2 [OF split_at_length [OF m]])
    from jl have "drop j ?L = ?L ! j # drop (j + 1) ?L"
      by (simp add: Cons_nth_drop_Suc)
    then have "carve_row p (drop j ?L) ?B = ?c @ carve_row p (drop (j + 1) ?L) ?B"
      by (simp add: carve_row_Cons)
    with l' tk dr rest len1 y1 show ?thesis by simp
  qed
qed

lemma carve_row_Nil: "carve_row p [] bs = []"
  by (simp add: carve_row_def)

lemma subtract_rows_sound:
  assumes "subtract_rows p A B i = Returns A'"
    and "list_all row_ok (row_array A)" and "list_all row_ok (row_array B)"
  shows "row_num A' = row_num A \<and> seg_num A' = seg_num A \<and> resolution A' = resolution A
       \<and> length (row_array A') = length (row_array A)
       \<and> list_all row_ok (row_array A')
       \<and> (\<forall>m<length (row_array A).
            if i \<le> m \<and> m < row_num A
            then lines_of (row_array A' ! m)
                   = carve_row p (lines_of (row_array A ! m)) (lines_of (row_array B ! m))
                 \<and> row_y (row_array A' ! m) = row_y (row_array A ! m)
                 \<and> length (line_array (row_array A' ! m)) = length (line_array (row_array A ! m))
            else row_array A' ! m = row_array A ! m)"
  using assms
proof (induction p A B i rule: subtract_rows.induct)
  case (1 p A B i)
  note okA = \<open>list_all row_ok (row_array A)\<close> and okB = \<open>list_all row_ok (row_array B)\<close>
  show ?case
  proof (cases "i < row_num A")
    case False
    with "1.prems"(1) have "A' = A"
      by (simp add: subtract_rows.simps [of p A B i])
    with False okA show ?thesis by auto
  next
    case True
    with "1.prems"(1) have i: "i < length (row_array A)"
      by (simp add: subtract_rows.simps [of p A B i] split: if_splits)
    with "1.prems"(1) True obtain row where
      s: "subtract_row p (row_array A ! i) (row_array B) i 0 = Returns row"
      and t: "subtract_rows p (A\<lparr>row_array := (row_array A)[i := row]\<rparr>) B (i + 1) = Returns A'"
      by (auto simp: subtract_rows.simps [of p A B i] split: sum.splits)
    from okA i have oki: "row_ok (row_array A ! i)" by (simp add: list_all_length)
    from okB have okb: "i < length (row_array B) \<longrightarrow> row_ok (row_array B ! i)"
      by (simp add: list_all_length)
    from subtract_row_sound [OF s oki okb] have
      l: "lines_of row = carve_row p (lines_of (row_array A ! i)) (lines_of (row_array B ! i))"
      and okr: "row_ok row"
      and len: "length (line_array row) = length (line_array (row_array A ! i))"
      and y: "row_y row = row_y (row_array A ! i)"
      by simp_all
    let ?A = "A\<lparr>row_array := (row_array A)[i := row]\<rparr>"
    from okA okr i have ok1: "list_all row_ok (row_array ?A)"
      by (auto simp: list_all_length nth_list_update)
    from "1.IH" [OF True i s t ok1 okB] have
      h: "row_num A' = row_num A" "seg_num A' = seg_num A" "resolution A' = resolution A"
         "length (row_array A') = length (row_array A)" "list_all row_ok (row_array A')"
      and al: "\<forall>m<length (row_array A).
            if i + 1 \<le> m \<and> m < row_num A
            then lines_of (row_array A' ! m)
                   = carve_row p (lines_of ((row_array A)[i := row] ! m))
                       (lines_of (row_array B ! m))
                 \<and> row_y (row_array A' ! m) = row_y ((row_array A)[i := row] ! m)
                 \<and> length (line_array (row_array A' ! m))
                   = length (line_array ((row_array A)[i := row] ! m))
            else row_array A' ! m = (row_array A)[i := row] ! m"
      by simp_all
    have "\<forall>m<length (row_array A).
            if i \<le> m \<and> m < row_num A
            then lines_of (row_array A' ! m)
                   = carve_row p (lines_of (row_array A ! m)) (lines_of (row_array B ! m))
                 \<and> row_y (row_array A' ! m) = row_y (row_array A ! m)
                 \<and> length (line_array (row_array A' ! m)) = length (line_array (row_array A ! m))
            else row_array A' ! m = row_array A ! m"
    proof (intro allI impI)
      fix m assume m: "m < length (row_array A)"
      with al have e: "if i + 1 \<le> m \<and> m < row_num A
            then lines_of (row_array A' ! m)
                   = carve_row p (lines_of ((row_array A)[i := row] ! m))
                       (lines_of (row_array B ! m))
                 \<and> row_y (row_array A' ! m) = row_y ((row_array A)[i := row] ! m)
                 \<and> length (line_array (row_array A' ! m))
                   = length (line_array ((row_array A)[i := row] ! m))
            else row_array A' ! m = (row_array A)[i := row] ! m"
        by simp
      consider "m < i" | "m = i" | "i < m" by linarith
      then show "if i \<le> m \<and> m < row_num A
            then lines_of (row_array A' ! m)
                   = carve_row p (lines_of (row_array A ! m)) (lines_of (row_array B ! m))
                 \<and> row_y (row_array A' ! m) = row_y (row_array A ! m)
                 \<and> length (line_array (row_array A' ! m)) = length (line_array (row_array A ! m))
            else row_array A' ! m = row_array A ! m"
      proof cases
        case 1
        with e m show ?thesis by simp
      next
        case 2
        with e m True l y len show ?thesis by simp
      next
        case 3
        with e m show ?thesis by (simp split: if_splits)
      qed
    qed
    with h show ?thesis by simp
  qed
qed

lemma gcode_pocket_subtract_sound:
  assumes "gcode_pocket_subtract p A B = Returns A'" and "grid_ok A" and "grid_ok B"
  shows "grid_ok A' \<and> row_num A' = row_num A \<and> seg_num A' = seg_num A
       \<and> resolution A' = resolution A
       \<and> (\<forall>m<row_num A.
             lines_of (row_array A' ! m)
               = carve_row p (lines_of (row_array A ! m)) (lines_of (row_array B ! m))
           \<and> row_y (row_array A' ! m) = row_y (row_array A ! m)
           \<and> length (line_array (row_array A' ! m)) = length (line_array (row_array A ! m)))"
  using subtract_rows_sound [of p A B 0 A'] assms
  by (simp add: gcode_pocket_subtract_def grid_ok_def)

text \<open>
  When the lines a row ends up with fit its slots, no store leaves the block and the
  loops return.
\<close>

lemma subtract_line_returns:
  assumes j: "j < line_num ra" and ok: "row_ok ra"
    and k: "k < line_num rb" and okb: "row_ok rb"
    and room: "case_1 p (lines_of ra ! j) (lines_of rb ! k)
               \<longrightarrow> line_num ra < length (line_array ra)"
  shows "\<exists>res. subtract_line p ra rb j k = Returns res"
proof -
  from j ok have ja: "j < length (line_array ra)" by (simp add: row_ok_def)
  from k okb have kb: "k < length (line_array rb)" by (simp add: row_ok_def)
  from j ok have la: "lines_of ra ! j = line_array ra ! j" by (simp add: lines_of_def)
  from k okb have lb: "lines_of rb ! k = line_array rb ! k" by (simp add: lines_of_def)
  show ?thesis
  proof (cases "case_1 p (line_array ra ! j) (line_array rb ! k)")
    case False
    with ja kb show ?thesis by (simp add: subtract_line_def Let_def)
  next
    case True
    with room la lb have n: "line_num ra < length (line_array ra)" by simp
    with j have "line_num ra - 1 \<le> j \<or> line_num ra - 1 + 1 < length (line_array ra)" by simp
    from shift_up_returns [OF this] obtain arr where
      sh: "shift_up (line_array ra) (line_num ra - 1) j = Returns arr" by blast
    from shift_up_sound [OF sh] have "length arr = length (line_array ra)" by simp
    with n j have "j + 1 < length arr" by simp
    with True ja kb sh show ?thesis by (simp add: subtract_line_def Let_def)
  qed
qed

lemma carve_length: "1 \<le> length (carve p a bs)"
proof (induction bs arbitrary: a)
  case Nil
  show ?case by simp
next
  case (Cons b bs)
  from Cons [of "snd (carve_step p a b)"] show ?case by simp
qed






section \<open>Lines of grid B within a line of grid A\<close>











section \<open>Claims about \<^verbatim>\<open>gcode_pocket_subtract\<close>\<close>

text \<open>The rules that run the loops on a grid given in full.\<close>

lemma replicate_unfold: "0 < n \<Longrightarrow> replicate n x = x # replicate (n - 1) x"
  by (cases n) simp_all

lemmas run_subtract =
  gcode_pocket_subtract_def subtract_rows.simps subtract_row.simps
  subtract_lines.simps subtract_line_def shift_up.simps case_1_def case_2_def case_3_def
  grid_of_def row_of_def line_array_size_def Let_def replicate_unfold

subsection \<open>Coverage\<close>

lemma carve_step_cover:
  assumes "p \<le> snd b - fst b"
  shows "\<Union> (cover ` set (fst (carve_step p a b))) \<subseteq> cover a"
    and "cover (snd (carve_step p a b)) \<subseteq> cover a"
  using assms
  by (auto simp: carve_step_def case_1_def case_2_def case_3_def cover_def)

lemma carve_cover:
  "\<forall>b\<in>set bs. p \<le> snd b - fst b \<Longrightarrow> \<Union> (cover ` set (carve p a bs)) \<subseteq> cover a"
proof (induction bs arbitrary: a)
  case Nil
  show ?case by simp
next
  case (Cons b bs)
  from Cons.prems have w: "p \<le> snd b - fst b" and rest: "\<forall>b\<in>set bs. p \<le> snd b - fst b"
    by simp_all
  from Cons.IH [OF rest, of "snd (carve_step p a b)"] carve_step_cover [OF w, of a]
  show ?case by auto
qed

lemma carve_row_cover:
  "\<forall>b\<in>set bs. p \<le> snd b - fst b \<Longrightarrow>
   \<Union> (cover ` set (carve_row p as bs)) \<subseteq> \<Union> (cover ` set as)"
proof (induction as)
  case Nil
  show ?case by (simp add: carve_row_Nil)
next
  case (Cons a as)
  from Cons.IH [OF Cons.prems] carve_cover [OF Cons.prems, of a] show ?case
    by (auto simp: carve_row_Cons)
qed

text \<open>
  Claim C1, amended. For grids A and B with equal row counts, rows that fit their
  slots, and every line of B at least \<^verbatim>\<open>GCODE_PRECISION\<close> wide: whenever
  \<^verbatim>\<open>gcode_pocket_subtract\<close> returns, the points covered by row \<open>i\<close> of A after the call
  are points covered by row \<open>i\<close> of A before the call, for every row \<open>i\<close>.
\<close>

theorem subtract_adds_no_coverage:
  assumes "gcode_pocket_subtract p A B = Returns A'"
    and "grid_ok A" and "grid_ok B" and "row_num A = row_num B"
    and "\<forall>r\<in>set (row_array B). \<forall>b\<in>set (lines_of r). p \<le> snd b - fst b"
  shows "\<forall>i<row_num A. row_cover (row_array A' ! i) \<subseteq> row_cover (row_array A ! i)"
proof (intro allI impI)
  fix i assume i: "i < row_num A"
  with assms(3,4) have "row_array B ! i \<in> set (row_array B)"
    by (simp add: grid_ok_def)
  with assms(5) have w: "\<forall>b\<in>set (lines_of (row_array B ! i)). p \<le> snd b - fst b"
    by blast
  from gcode_pocket_subtract_sound [OF assms(1-3)] i have
    "lines_of (row_array A' ! i)
       = carve_row p (lines_of (row_array A ! i)) (lines_of (row_array B ! i))"
    by simp
  with carve_row_cover [OF w, of "lines_of (row_array A ! i)"]
  show "row_cover (row_array A' ! i) \<subseteq> row_cover (row_array A ! i)"
    by (simp add: row_cover_def)
qed

text \<open>
  Claim C1 as stated, for every grid B, fails. The first case accepts a line of B whose
  two ends lie within the precision of the line of A, also outside it. With a
  precision of \<open>1/100000\<close>, the line \<open>(0, 10)\<close> of A and the line
  \<open>(10.0000025, 10.000005)\<close> of B, the line of A becomes \<open>(0, 10.0000025)\<close> and
  \<open>(10.000005, 10)\<close>: the point \<open>10.0000025\<close> is covered after the call and was not
  before.
\<close>

theorem subtract_adds_coverage_counterexample:
  "gcode_pocket_subtract (1 / 100000)
     (grid_of [row_of [(0, 10)] 0] 1 1)
     (grid_of [row_of [(10 + 1 / 400000, 10 + 1 / 200000)] 0] 1 1)
   = Returns (grid_of [row_of [(0, 10 + 1 / 400000), (10 + 1 / 200000, 10)] 0] 1 1)
   \<and> row_num (grid_of [row_of [(0, 10)] 0] 1 1)
     = row_num (grid_of [row_of [(10 + 1 / 400000, 10 + 1 / 200000)] 0] 1 1)
   \<and> \<not> row_cover (row_array
          (grid_of [row_of [(0, 10 + 1 / 400000), (10 + 1 / 200000, 10)] 0] 1 1) ! 0)
        \<subseteq> row_cover (row_array (grid_of [row_of [(0, 10)] 0] 1 1) ! 0)"
proof -
  have "(10 + 1 / 400000 :: real)
          \<in> row_cover (row_array
              (grid_of [row_of [(0, 10 + 1 / 400000), (10 + 1 / 200000, 10)] 0] 1 1) ! 0)"
    by (simp add: row_cover_def cover_def lines_of_def grid_of_def row_of_def)
  moreover have "(10 + 1 / 400000 :: real)
          \<notin> row_cover (row_array (grid_of [row_of [(0, 10)] 0] 1 1) ! 0)"
    by (simp add: row_cover_def cover_def lines_of_def grid_of_def row_of_def)
  ultimately have "\<not> row_cover (row_array
          (grid_of [row_of [(0, 10 + 1 / 400000), (10 + 1 / 200000, 10)] 0] 1 1) ! 0)
        \<subseteq> row_cover (row_array (grid_of [row_of [(0, 10)] 0] 1 1) ! 0)"
    by blast
  moreover have "gcode_pocket_subtract (1 / 100000)
     (grid_of [row_of [(0, 10)] 0] 1 1)
     (grid_of [row_of [(10 + 1 / 400000, 10 + 1 / 200000)] 0] 1 1)
   = Returns (grid_of [row_of [(0, 10 + 1 / 400000), (10 + 1 / 200000, 10)] 0] 1 1)"
    by (simp add: run_subtract)
  ultimately show ?thesis by (simp add: grid_of_def)
qed

text \<open>
  The same happens at every positive precision, with a line of B that lies between a
  quarter and a half of the precision to the right of the line of A.
\<close>

lemma subtract_adds_coverage_at_every_positive_precision:
  assumes "0 < p"
  shows "gcode_pocket_subtract p
           (grid_of [row_of [(0, 10)] 0] 1 1)
           (grid_of [row_of [(10 + p / 4, 10 + p / 2)] 0] 1 1)
         = Returns (grid_of [row_of [(0, 10 + p / 4), (10 + p / 2, 10)] 0] 1 1)
       \<and> 10 + p / 4 \<in> row_cover (row_of [(0, 10 + p / 4), (10 + p / 2, 10)] 0)
       \<and> 10 + p / 4 \<notin> row_cover (row_of [(0, 10)] 0)"
  using assms
  by (simp add: run_subtract row_cover_def cover_def lines_of_def)

text \<open>
  The amended claim at the island of the specification's scenario: the line
  \<open>(0.1, 9.9)\<close> less the line \<open>(3, 7)\<close>.
\<close>

theorem subtract_adds_no_coverage_witness:
  "gcode_pocket_subtract (1 / 100000)
     (grid_of [row_of [(1 / 10, 99 / 10)] 3] 1 1) (grid_of [row_of [(3, 7)] 3] 1 1)
   = Returns (grid_of [row_of [(1 / 10, 3), (7, 99 / 10)] 3] 1 1)
   \<and> row_cover (row_array (grid_of [row_of [(1 / 10, 3), (7, 99 / 10)] 3] 1 1) ! 0)
       \<subseteq> row_cover (row_array (grid_of [row_of [(1 / 10, 99 / 10)] 3] 1 1) ! 0)"
proof -
  have run: "gcode_pocket_subtract (1 / 100000)
     (grid_of [row_of [(1 / 10, 99 / 10)] 3] 1 1) (grid_of [row_of [(3, 7)] 3] 1 1)
   = Returns (grid_of [row_of [(1 / 10, 3), (7, 99 / 10)] 3] 1 1)"
    by (simp add: run_subtract)
  have okA: "grid_ok (grid_of [row_of [(1 / 10, 99 / 10)] 3] 1 1)"
    and okB: "grid_ok (grid_of [row_of [(3, 7)] 3] 1 1)"
    by (simp_all add: grid_ok_def row_ok_def grid_of_def row_of_def)
  have n: "row_num (grid_of [row_of [(1 / 10, 99 / 10)] 3] 1 1)
         = row_num (grid_of [row_of [(3, 7)] 3] 1 1)"
    by (simp add: grid_of_def)
  have w: "\<forall>r\<in>set (row_array (grid_of [row_of [(3, 7)] 3] 1 1)).
             \<forall>b\<in>set (lines_of r). 1 / 100000 \<le> snd b - fst b"
    by (simp add: grid_of_def row_of_def lines_of_def)
  from subtract_adds_no_coverage [OF run okA okB n w] run show ?thesis
    by (simp add: grid_of_def)
qed

subsection \<open>Order of the lines of a row\<close>

lemma carve_inv:
  assumes "0 \<le> p" and "fst a \<le> snd a + p" and "\<forall>b\<in>set bs. fst b \<le> snd b"
  shows "list_all (\<lambda>l. fst l \<le> snd l + p) (carve p a bs)
       \<and> successively (\<lambda>a b. snd a \<le> fst b) (carve p a bs)
       \<and> fst a \<le> fst (hd (carve p a bs))
       \<and> snd (last (carve p a bs)) \<le> snd a"
  using assms(2,3)
proof (induction bs arbitrary: a)
  case Nil
  then show ?case by simp
next
  case (Cons b bs)
  from Cons.prems have b: "fst b \<le> snd b" and rest: "\<forall>b\<in>set bs. fst b \<le> snd b"
    by simp_all
  let ?cur = "snd (carve_step p a b)"
  have cur: "fst ?cur \<le> snd ?cur + p" "\<not> case_1 p a b \<longrightarrow> fst a \<le> fst ?cur"
    "snd ?cur \<le> snd a"
    using Cons.prems(1) b assms(1)
    by (auto simp: carve_step_def case_1_def case_2_def case_3_def)
  from Cons.IH [OF cur(1) rest] have ih:
    "list_all (\<lambda>l. fst l \<le> snd l + p) (carve p ?cur bs)"
    "successively (\<lambda>a b. snd a \<le> fst b) (carve p ?cur bs)"
    "fst ?cur \<le> fst (hd (carve p ?cur bs))"
    "snd (last (carve p ?cur bs)) \<le> snd ?cur"
    by simp_all
  have ne: "carve p ?cur bs \<noteq> []"
    using carve_length [of p ?cur bs] by auto
  show ?case
  proof (cases "case_1 p a b")
    case True
    then have cs: "carve_step p a b = ([(fst a, fst b)], (snd b, snd a))"
      by (simp add: carve_step_def)
    from True have "fst a \<le> fst b + p" by (simp add: case_1_def)
    moreover from ih(3) b cs have "fst b \<le> fst (hd (carve p ?cur bs))" by simp
    ultimately show ?thesis using ih cs ne cur
      by (simp add: successively_Cons)
  next
    case False
    then have "fst (carve_step p a b) = []" by (simp add: carve_step_def)
    with ih cur False show ?thesis by simp
  qed
qed

lemma carve_row_inv:
  assumes "0 \<le> p" and "\<forall>b\<in>set bs. fst b \<le> snd b"
  shows "list_all (\<lambda>l. fst l \<le> snd l + p) as \<Longrightarrow>
         successively (\<lambda>a b. snd a \<le> fst b) as \<Longrightarrow>
         list_all (\<lambda>l. fst l \<le> snd l + p) (carve_row p as bs)
       \<and> successively (\<lambda>a b. snd a \<le> fst b) (carve_row p as bs)
       \<and> (as \<noteq> [] \<longrightarrow> carve_row p as bs \<noteq> []
                     \<and> fst (hd as) \<le> fst (hd (carve_row p as bs)))"
proof (induction as)
  case Nil
  show ?case by (simp add: carve_row_Nil)
next
  case (Cons a as)
  from Cons.prems have a: "fst a \<le> snd a + p"
    and as: "list_all (\<lambda>l. fst l \<le> snd l + p) as"
    and sas: "successively (\<lambda>a b. snd a \<le> fst b) as"
    and link: "as \<noteq> [] \<longrightarrow> snd a \<le> fst (hd as)"
    by (auto simp: successively_Cons)
  from carve_inv [OF assms(1) a assms(2)] have c:
    "list_all (\<lambda>l. fst l \<le> snd l + p) (carve p a bs)"
    "successively (\<lambda>a b. snd a \<le> fst b) (carve p a bs)"
    "fst a \<le> fst (hd (carve p a bs))"
    "snd (last (carve p a bs)) \<le> snd a"
    by simp_all
  have ne: "carve p a bs \<noteq> []" using carve_length [of p a bs] by auto
  from Cons.IH [OF as sas] have ih:
    "list_all (\<lambda>l. fst l \<le> snd l + p) (carve_row p as bs)"
    "successively (\<lambda>a b. snd a \<le> fst b) (carve_row p as bs)"
    "as \<noteq> [] \<longrightarrow> carve_row p as bs \<noteq> [] \<and> fst (hd as) \<le> fst (hd (carve_row p as bs))"
    by simp_all
  have join: "carve_row p as bs = [] \<or> snd (last (carve p a bs)) \<le> fst (hd (carve_row p as bs))"
  proof (cases "as = []")
    case True
    then show ?thesis by (simp add: carve_row_Nil)
  next
    case False
    with link ih(3) c(4) show ?thesis by linarith
  qed
  from c ih(1,2) ne join show ?case
    by (auto simp: carve_row_Cons successively_append_iff)
qed

lemma row_inv_within: "0 \<le> p \<Longrightarrow> row_inv ls \<Longrightarrow> row_inv_within p ls"
proof -
  assume p: "0 \<le> p" and "row_inv ls"
  then have a: "list_all (\<lambda>l. fst l \<le> snd l) ls"
    and s: "sorted_wrt (\<lambda>a b. snd a \<le> fst b) ls"
    by (simp_all add: row_inv_def)
  from a p have "list_all (\<lambda>l. fst l \<le> snd l + p) ls"
    by (induction ls) auto
  with successively_if_sorted_wrt [OF s] show ?thesis
    by (simp add: row_inv_within_def)
qed

lemma gcode_pocket_subtract_rows_within:
  assumes "gcode_pocket_subtract p A B = Returns A'"
    and "grid_ok A" and "grid_ok B" and "row_num A = row_num B" and "0 \<le> p"
    and "list_all (\<lambda>r. row_inv (lines_of r)) (row_array A)"
    and "list_all (\<lambda>r. row_inv (lines_of r)) (row_array B)"
  shows "list_all (\<lambda>r. row_inv_within p (lines_of r)) (row_array A')"
proof -
  from gcode_pocket_subtract_sound [OF assms(1-3)] have
    ok': "grid_ok A'" and n': "row_num A' = row_num A"
    and l: "\<forall>m<row_num A. lines_of (row_array A' ! m)
               = carve_row p (lines_of (row_array A ! m)) (lines_of (row_array B ! m))"
    by simp_all
  have "\<forall>m<length (row_array A'). row_inv_within p (lines_of (row_array A' ! m))"
  proof (intro allI impI)
    fix m assume "m < length (row_array A')"
    with ok' n' have m: "m < row_num A" by (simp add: grid_ok_def)
    with assms(2,6) have "row_inv (lines_of (row_array A ! m))"
      by (simp add: grid_ok_def list_all_length)
    from row_inv_within [OF assms(5) this] have
      a1: "list_all (\<lambda>l. fst l \<le> snd l + p) (lines_of (row_array A ! m))"
      and a2: "successively (\<lambda>a b. snd a \<le> fst b) (lines_of (row_array A ! m))"
      by (simp_all add: row_inv_within_def)
    from m assms(3,4,7) have "row_inv (lines_of (row_array B ! m))"
      by (simp add: grid_ok_def list_all_length)
    then have b: "\<forall>b\<in>set (lines_of (row_array B ! m)). fst b \<le> snd b"
      by (simp add: row_inv_def list_all_iff)
    from carve_row_inv [OF assms(5) b a1 a2] l m
    show "row_inv_within p (lines_of (row_array A' ! m))"
      by (simp add: row_inv_within_def)
  qed
  then show ?thesis by (simp add: list_all_length)
qed

lemma row_inv_within_zero: "row_inv_within 0 ls \<Longrightarrow> row_inv ls"
proof -
  assume "row_inv_within 0 ls"
  then have a: "list_all (\<lambda>l. fst l \<le> snd l) ls"
    and s: "successively (\<lambda>a b. snd a \<le> fst b) ls"
    by (simp_all add: row_inv_within_def)
  have "sorted_wrt (\<lambda>a b. snd a \<le> fst b) ls"
  proof (subst successively_iff_sorted_wrt_strong [symmetric])
    fix x y z :: gcode_vec2d_t
    assume "y \<in> set ls" and "snd x \<le> fst y" and "snd y \<le> fst z"
    moreover from \<open>y \<in> set ls\<close> a have "fst y \<le> snd y" by (simp add: list_all_iff)
    ultimately show "snd x \<le> fst z" by linarith
  next
    show "successively (\<lambda>a b. snd a \<le> fst b) ls" by (rule s)
  qed
  with a show ?thesis by (simp add: row_inv_def)
qed

text \<open>
  With a precision of zero the comparisons of \<^verbatim>\<open>gcode_pocket_subtract\<close> are exact, and
  the invariant of a row is kept as it stands.
\<close>

lemma gcode_pocket_subtract_exact_keeps_row_inv:
  assumes "gcode_pocket_subtract 0 A B = Returns A'"
    and "grid_ok A" and "grid_ok B" and "row_num A = row_num B"
    and "list_all (\<lambda>r. row_inv (lines_of r)) (row_array A)"
    and "list_all (\<lambda>r. row_inv (lines_of r)) (row_array B)"
  shows "list_all (\<lambda>r. row_inv (lines_of r)) (row_array A')"
proof -
  from gcode_pocket_subtract_rows_within [OF assms(1-4) _ assms(5,6)]
  have "list_all (\<lambda>r. row_inv_within 0 (lines_of r)) (row_array A')" by simp
  then show ?thesis by (auto simp: list_all_iff intro: row_inv_within_zero)
qed

text \<open>
  Claim C3, amended. For row-aligned grids whose rows fit their slots and satisfy the
  invariant of a row, and a precision that is not negative: whenever
  \<^verbatim>\<open>gcode_pocket_subtract\<close> returns, in every row of A each line ends at or before the
  start of the line stored next, and each line has its start at or before its end
  plus \<^verbatim>\<open>GCODE_PRECISION\<close>.
\<close>

theorem subtract_keeps_rows_ordered_within_precision:
  assumes "gcode_pocket_subtract p A B = Returns A'"
    and "grid_ok A" and "grid_ok B" and "row_num A = row_num B" and "0 \<le> p"
    and "list_all (\<lambda>r. row_inv (lines_of r)) (row_array A)"
    and "list_all (\<lambda>r. row_inv (lines_of r)) (row_array B)"
  shows "list_all (\<lambda>r. row_inv_within p (lines_of r)) (row_array A')"
  using assms by (rule gcode_pocket_subtract_rows_within)

text \<open>
  Claim C3 as stated fails: a line of B that starts within the precision to the left
  of a line of A is taken for contained, and the left part of the split gets its end
  before its start. With a precision of \<open>1/100000\<close>, the line \<open>(0, 10)\<close> of A and the
  line \<open>(-0.000005, 5)\<close> of B, both rows satisfy the invariant before the call, and
  the row of A holds \<open>(0, -0.000005)\<close> and \<open>(5, 10)\<close> after it.
\<close>

theorem subtract_breaks_row_invariant_counterexample:
  "gcode_pocket_subtract (1 / 100000)
     (grid_of [row_of [(0, 10)] 0] 1 1) (grid_of [row_of [(- (1 / 200000), 5)] 0] 1 1)
   = Returns (grid_of [row_of [(0, - (1 / 200000)), (5, 10)] 0] 1 1)
   \<and> row_inv (lines_of (row_array (grid_of [row_of [(0, 10)] 0] 1 1) ! 0))
   \<and> row_inv (lines_of (row_array (grid_of [row_of [(- (1 / 200000), 5)] 0] 1 1) ! 0))
   \<and> \<not> row_inv (lines_of (row_array
            (grid_of [row_of [(0, - (1 / 200000)), (5, 10)] 0] 1 1) ! 0))"
  by (simp add: run_subtract row_inv_def lines_of_def)

text \<open>
  The same happens at every positive precision, with the line of B starting half the
  precision to the left of the line of A.
\<close>

lemma subtract_breaks_row_invariant_at_every_positive_precision:
  assumes "0 < p"
  shows "gcode_pocket_subtract p
           (grid_of [row_of [(0, 10)] 0] 1 1) (grid_of [row_of [(- (p / 2), 5)] 0] 1 1)
         = Returns (grid_of [row_of [(0, - (p / 2)), (5, 10)] 0] 1 1)
       \<and> \<not> row_inv (lines_of (row_of [(0, - (p / 2)), (5, 10)] 0))"
  using assms
  by (simp add: run_subtract row_inv_def lines_of_def)

text \<open>The amended claim at the same two grids.\<close>

theorem subtract_keeps_rows_ordered_within_precision_witness:
  "gcode_pocket_subtract (1 / 100000)
     (grid_of [row_of [(0, 10)] 0] 1 1) (grid_of [row_of [(- (1 / 200000), 5)] 0] 1 1)
   = Returns (grid_of [row_of [(0, - (1 / 200000)), (5, 10)] 0] 1 1)
   \<and> row_inv_within (1 / 100000)
       (lines_of (row_array (grid_of [row_of [(0, - (1 / 200000)), (5, 10)] 0] 1 1) ! 0))"
proof -
  have run: "gcode_pocket_subtract (1 / 100000)
     (grid_of [row_of [(0, 10)] 0] 1 1) (grid_of [row_of [(- (1 / 200000), 5)] 0] 1 1)
   = Returns (grid_of [row_of [(0, - (1 / 200000)), (5, 10)] 0] 1 1)"
    by (simp add: run_subtract)
  have okA: "grid_ok (grid_of [row_of [(0, 10)] 0] 1 1)"
    and okB: "grid_ok (grid_of [row_of [(- (1 / 200000), 5)] 0] 1 1)"
    by (simp_all add: grid_ok_def row_ok_def grid_of_def row_of_def)
  have n: "row_num (grid_of [row_of [(0, 10)] 0] 1 1)
         = row_num (grid_of [row_of [(- (1 / 200000), 5)] 0] 1 1)"
    by (simp add: grid_of_def)
  have iA: "list_all (\<lambda>r. row_inv (lines_of r)) (row_array (grid_of [row_of [(0, 10)] 0] 1 1))"
    and iB: "list_all (\<lambda>r. row_inv (lines_of r))
               (row_array (grid_of [row_of [(- (1 / 200000), 5)] 0] 1 1))"
    by (simp_all add: grid_of_def row_of_def lines_of_def row_inv_def)
  from subtract_keeps_rows_ordered_within_precision [OF run okA okB n _ iA iB] run
  show ?thesis by (simp add: grid_of_def)
qed

subsection \<open>The split of a line\<close>

text \<open>
  One comparison. When line \<open>k\<close> of the row of B passes the containment test (both
  ends within \<^verbatim>\<open>GCODE_PRECISION\<close> of line \<open>j\<close> of the row of A) and the row of A has a
  slot left, the comparison returns with line \<open>j\<close> replaced by \<open>(A.start, B.start)\<close> and
  \<open>(B.end, A.end)\<close>, the second stored right after the first and before the lines that
  followed, which keep their order; the line count of the row is one more than
  before, and \<open>j\<close> stands on the second part.
\<close>

lemma subtract_line_splits:
  assumes "j < line_num row_a" and "k < line_num row_b"
    and "row_ok row_a" and "row_ok row_b"
    and "line_num row_a < length (line_array row_a)"
    and "case_1 precision (lines_of row_a ! j) (lines_of row_b ! k)"
  shows "\<exists>row_a'. subtract_line precision row_a row_b j k = Returns (row_a', j + 1)
          \<and> lines_of row_a'
              = take j (lines_of row_a)
                @ [(fst (lines_of row_a ! j), fst (lines_of row_b ! k)),
                   (snd (lines_of row_b ! k), snd (lines_of row_a ! j))]
                @ drop (j + 1) (lines_of row_a)
          \<and> line_num row_a' = line_num row_a + 1"
proof -
  from assms(5,6) have "case_1 precision (lines_of row_a ! j) (lines_of row_b ! k)
               \<longrightarrow> line_num row_a < length (line_array row_a)" by simp
  from subtract_line_returns [OF assms(1,3,2,4) this] obtain row_a' j' where
    s: "subtract_line precision row_a row_b j k = Returns (row_a', j')" by (metis surj_pair)
  from assms(6) have cs: "carve_step precision (lines_of row_a ! j) (lines_of row_b ! k)
      = ([(fst (lines_of row_a ! j), fst (lines_of row_b ! k))],
         (snd (lines_of row_b ! k), snd (lines_of row_a ! j)))"
    by (simp add: carve_step_def)
  from subtract_line_sound [OF s assms(1,3,2,4)] have
    l: "lines_of row_a'
              = take j (lines_of row_a)
                @ [(fst (lines_of row_a ! j), fst (lines_of row_b ! k)),
                   (snd (lines_of row_b ! k), snd (lines_of row_a ! j))]
                @ drop (j + 1) (lines_of row_a)"
    and j': "j' = j + 1"
    unfolding cs by simp_all
  from subtract_line_count [OF s] j' have "line_num row_a' = line_num row_a + 1" by simp
  with s l j' show ?thesis by blast
qed



text \<open>
  A line of B no wider than twice the precision can lie within two lines of A that
  touch, and is then counted twice: the row grows by two lines for one line of B. Both
  rows satisfy the invariant of a row.
\<close>

lemma subtract_splits_twice_at_narrow_line:
  "gcode_pocket_subtract (1 / 100000)
     (grid_of [row_of [(0, 1), (1, 10)] 0] 2 1)
     (grid_of [row_of [(1 - 1 / 200000, 1 - 1 / 400000)] 0] 1 1)
   = Returns (grid_of [row_of [(0, 1 - 1 / 200000), (1 - 1 / 400000, 1),
                               (1, 1 - 1 / 200000), (1 - 1 / 400000, 10)] 0] 2 1)
   \<and> row_inv [(0, 1), (1, 10)] \<and> row_inv [(1 - 1 / 200000, 1 - 1 / 400000)]"
  by (simp add: run_subtract row_inv_def)


subsection \<open>What is read of grid B\<close>

lemma subtract_line_reads_lines:
  "line_array row_b = line_array row_b' \<Longrightarrow>
   subtract_line p row_a row_b j k = subtract_line p row_a row_b' j k"
  unfolding subtract_line_def by (simp only:)

lemma subtract_lines_reads_lines:
  "line_array row_b = line_array row_b' \<Longrightarrow> line_num row_b = line_num row_b' \<Longrightarrow>
   subtract_lines p row_a row_b j k = subtract_lines p row_a row_b' j k"
proof (induction p row_a row_b j k rule: subtract_lines.induct)
  case (1 p row_a row_b j k)
  note unf = subtract_lines.simps [of p row_a row_b j k]
    subtract_lines.simps [of p row_a row_b' j k]
  note e = subtract_line_reads_lines [OF "1.prems"(1), of p row_a j k, symmetric]
  show ?case
  proof (cases "k < line_num row_b")
    case False
    with "1.prems"(2) show ?thesis unfolding unf by simp
  next
    case True
    with "1.prems"(2) have True': "k < line_num row_b'" by simp
    show ?thesis
    proof (cases "subtract_line p row_a row_b j k")
      case (Inl u)
      show ?thesis unfolding unf e Inl using True True' by simp
    next
      case (Inr res)
      obtain r1 j1 where res: "res = (r1, j1)" by (cases res)
      from "1.IH" [OF True Inr [unfolded res] refl "1.prems"]
      have "subtract_lines p r1 row_b j1 (k + 1) = subtract_lines p r1 row_b' j1 (k + 1)" .
      then show ?thesis unfolding unf e Inr res using True True' by simp
    qed
  qed
qed

lemma subtract_row_reads_lines:
  assumes "(i < length rows_b) = (i < length rows_b')"
    and "i < length rows_b \<longrightarrow> line_array (rows_b ! i) = line_array (rows_b' ! i)
                              \<and> line_num (rows_b ! i) = line_num (rows_b' ! i)"
  shows "subtract_row p row_a rows_b i j = subtract_row p row_a rows_b' i j"
  using assms
proof (induction p row_a rows_b i j rule: subtract_row.induct)
  case (1 p row_a rows_b i j)
  note unf = subtract_row.simps [of p row_a rows_b i j]
    subtract_row.simps [of p row_a rows_b' i j]
  show ?case
  proof (cases "j < line_num row_a")
    case False
    then show ?thesis unfolding unf by simp
  next
    case j: True
    show ?thesis
    proof (cases "i < length rows_b")
      case False
      with "1.prems"(1) have "\<not> i < length rows_b'" by simp
      with False show ?thesis unfolding unf using j by simp
    next
      case i: True
      with "1.prems"(1) have i': "i < length rows_b'" by simp
      from i "1.prems"(2) have "line_array (rows_b ! i) = line_array (rows_b' ! i)"
        and "line_num (rows_b ! i) = line_num (rows_b' ! i)"
        by simp_all
      note e = subtract_lines_reads_lines [OF this, of p row_a j 0, symmetric]
      show ?thesis
      proof (cases "subtract_lines p row_a (rows_b ! i) j 0")
        case (Inl u)
        show ?thesis unfolding unf e Inl using j i i' by simp
      next
        case (Inr res)
        obtain r1 j1 where res: "res = (r1, j1)" by (cases res)
        from "1.IH" [OF j i Inr [unfolded res] refl "1.prems"]
        have "subtract_row p r1 rows_b i (j1 + 1) = subtract_row p r1 rows_b' i (j1 + 1)" .
        then show ?thesis unfolding unf e Inr res using j i i' by simp
      qed
    qed
  qed
qed

lemma subtract_rows_reads_lines:
  assumes "\<forall>m<row_num A. (m < length (row_array B)) = (m < length (row_array B'))
             \<and> (m < length (row_array B) \<longrightarrow>
                   line_array (row_array B ! m) = line_array (row_array B' ! m)
                 \<and> line_num (row_array B ! m) = line_num (row_array B' ! m))"
  shows "subtract_rows p A B i = subtract_rows p A B' i"
  using assms
proof (induction p A B i rule: subtract_rows.induct)
  case (1 p A B i)
  note unf = subtract_rows.simps [of p A B i] subtract_rows.simps [of p A B' i]
  show ?case
  proof (cases "i < row_num A")
    case False
    then show ?thesis unfolding unf by simp
  next
    case i: True
    show ?thesis
    proof (cases "i < length (row_array A)")
      case False
      then show ?thesis unfolding unf using i by simp
    next
      case ia: True
      from i "1.prems" have
        "(i < length (row_array B)) = (i < length (row_array B'))"
        and "i < length (row_array B) \<longrightarrow>
                   line_array (row_array B ! i) = line_array (row_array B' ! i)
                 \<and> line_num (row_array B ! i) = line_num (row_array B' ! i)"
        by simp_all
      from subtract_row_reads_lines [OF this]
      have e: "subtract_row p (row_array A ! i) (row_array B') i 0
             = subtract_row p (row_array A ! i) (row_array B) i 0"
        by simp
      show ?thesis
      proof (cases "subtract_row p (row_array A ! i) (row_array B) i 0")
        case (Inl u)
        show ?thesis unfolding unf e Inl using i ia by simp
      next
        case (Inr row)
        have "\<forall>m<row_num (A\<lparr>row_array := (row_array A)[i := row]\<rparr>).
                (m < length (row_array B)) = (m < length (row_array B'))
              \<and> (m < length (row_array B) \<longrightarrow>
                   line_array (row_array B ! m) = line_array (row_array B' ! m)
                 \<and> line_num (row_array B ! m) = line_num (row_array B' ! m))"
          using "1.prems" by simp
        from "1.IH" [OF i ia Inr this]
        have "subtract_rows p (A\<lparr>row_array := (row_array A)[i := row]\<rparr>) B (i + 1)
            = subtract_rows p (A\<lparr>row_array := (row_array A)[i := row]\<rparr>) B' (i + 1)" .
        then show ?thesis unfolding unf e Inr using i ia by simp
      qed
    qed
  qed
qed

text \<open>
  Claim C9, amended. \<^verbatim>\<open>gcode_pocket_subtract\<close> compares nothing of the two grids but
  lines: row \<open>i\<close> of A is paired with row \<open>i\<close> of B by its index. Two grids B and B'
  that hold the same lines at every index below the row count of A give the same
  outcome for A, whatever their resolutions, the y of their rows and the number of
  rows they have beyond.
\<close>

theorem subtract_pairs_rows_by_index_alone:
  assumes "\<forall>m<row_num A. (m < length (row_array B)) = (m < length (row_array B'))
             \<and> (m < length (row_array B) \<longrightarrow>
                   line_array (row_array B ! m) = line_array (row_array B' ! m)
                 \<and> line_num (row_array B ! m) = line_num (row_array B' ! m))"
  shows "gcode_pocket_subtract p A B = gcode_pocket_subtract p A B'"
  using subtract_rows_reads_lines [OF assms] by (simp add: gcode_pocket_subtract_def)

text \<open>
  Claim C9 as stated fails: there is no check and no rejection. Grid A with
  resolution 1 and one row at \<open>y = 0\<close>, grid B with resolution \<open>1/2\<close> and two rows
  starting at \<open>y = 5\<close>: the call returns, and grid A has been changed.
\<close>

theorem subtract_rejects_mismatch_counterexample:
  "resolution (grid_of [row_of [(0, 10)] 0] 1 1)
     \<noteq> resolution (grid_of [row_of [(3, 7)] 5, row_of [] (11 / 2)] 1 (1 / 2))
   \<and> row_num (grid_of [row_of [(0, 10)] 0] 1 1)
     \<noteq> row_num (grid_of [row_of [(3, 7)] 5, row_of [] (11 / 2)] 1 (1 / 2))
   \<and> row_y (row_array (grid_of [row_of [(0, 10)] 0] 1 1) ! 0)
     \<noteq> row_y (row_array (grid_of [row_of [(3, 7)] 5, row_of [] (11 / 2)] 1 (1 / 2)) ! 0)
   \<and> gcode_pocket_subtract (1 / 100000)
       (grid_of [row_of [(0, 10)] 0] 1 1)
       (grid_of [row_of [(3, 7)] 5, row_of [] (11 / 2)] 1 (1 / 2))
     = Returns (grid_of [row_of [(0, 3), (7, 10)] 0] 1 1)
   \<and> grid_of [row_of [(0, 3), (7, 10)] 0] 1 1 \<noteq> grid_of [row_of [(0, 10)] 0] 1 1"
  by (simp add: run_subtract)

text \<open>The amended claim at the mismatched grid and an aligned one with the same lines.\<close>

theorem subtract_pairs_rows_by_index_alone_witness:
  "gcode_pocket_subtract (1 / 100000)
       (grid_of [row_of [(0, 10)] 0] 1 1)
       (grid_of [row_of [(3, 7)] 5, row_of [] (11 / 2)] 1 (1 / 2))
   = gcode_pocket_subtract (1 / 100000)
       (grid_of [row_of [(0, 10)] 0] 1 1)
       (grid_of [row_of [(3, 7)] 0] 1 1)"
  using subtract_pairs_rows_by_index_alone
    [of "grid_of [row_of [(0, 10)] 0] 1 1"
        "grid_of [row_of [(3, 7)] 5, row_of [] (11 / 2)] 1 (1 / 2)"
        "grid_of [row_of [(3, 7)] 0] 1 1" "1 / 100000"]
  by (simp add: grid_of_def row_of_def)

section \<open>The motions of \<^verbatim>\<open>gcode_pocket_make\<close>\<close>

text \<open>
  The loops of \<^verbatim>\<open>gcode_pocket_make\<close> emit the plan: first each direction of a row, then
  the rows, then the whole pass.
\<close>

lemma make_left_to_right_plan:
  "row_ok row \<Longrightarrow>
   make_left_to_right zt pr depth rapid tool row j code
     = Returns (code @ concat (map (\<lambda>l. cut_line zt pr depth rapid tool (fst l) (snd l) (row_y row))
                             (filter (wide_enough tool) (drop j (lines_of row)))))"
proof (induction zt pr depth rapid tool row j code rule: make_left_to_right.induct)
  case (1 zt pr depth rapid tool row j code)
  note unf = make_left_to_right.simps [of zt pr depth rapid tool row j code]
  show ?case
  proof (cases "j < line_num row")
    case False
    with "1.prems" have "drop j (lines_of row) = []" by (simp add: lines_of_length)
    with False show ?thesis unfolding unf by simp
  next
    case True
    with "1.prems" have ja: "j < length (line_array row)" by (simp add: row_ok_def)
    from True "1.prems" have jl: "j < length (lines_of row)" by (simp add: lines_of_length)
    then have dj: "drop j (lines_of row) = lines_of row ! j # drop (j + 1) (lines_of row)"
      by (simp add: Cons_nth_drop_Suc)
    from True have lj: "lines_of row ! j = line_array row ! j" by (simp add: lines_of_def)
    show ?thesis
    proof (cases "\<bar>fst (line_array row ! j) - snd (line_array row ! j)\<bar> < diameter tool")
      case narrow: True
      from "1.IH"(1) [OF True ja narrow "1.prems"] True ja narrow show ?thesis
        unfolding unf dj lj by (simp add: wide_enough_def)
    next
      case wide: False
      from "1.IH"(2) [OF True ja wide "1.prems"] True ja wide show ?thesis
        unfolding unf dj lj by (simp add: wide_enough_def)
    qed
  qed
qed

lemma make_right_to_left_plan:
  "row_ok row \<Longrightarrow> j < int (line_num row) \<Longrightarrow>
   make_right_to_left zt pr depth rapid tool row j code
     = Returns (code @ concat (map (\<lambda>l. cut_line zt pr depth rapid tool (snd l) (fst l) (row_y row))
                 (rev (filter (wide_enough tool) (take (nat (j + 1)) (lines_of row))))))"
proof (induction zt pr depth rapid tool row j code rule: make_right_to_left.induct)
  case (1 zt pr depth rapid tool row j code)
  note unf = make_right_to_left.simps [of zt pr depth rapid tool row j code]
  show ?case
  proof (cases "j \<ge> 0")
    case False
    then have "nat (j + 1) = 0" by simp
    with False show ?thesis unfolding unf by simp
  next
    case True
    with "1.prems" have jn: "nat j < line_num row" by simp
    with "1.prems" have ja: "nat j < length (line_array row)" by (simp add: row_ok_def)
    from jn "1.prems" have jl: "nat j < length (lines_of row)" by (simp add: lines_of_length)
    from True have "nat (j + 1) = Suc (nat j)" by simp
    with jl have tj: "take (nat (j + 1)) (lines_of row)
                    = take (nat j) (lines_of row) @ [lines_of row ! nat j]"
      by (simp add: take_Suc_conv_app_nth)
    from jn have lj: "lines_of row ! nat j = line_array row ! nat j" by (simp add: lines_of_def)
    from True have nj: "nat (j - 1 + 1) = nat j" by simp
    from "1.prems" have j': "j - 1 < int (line_num row)" by simp
    show ?thesis
    proof (cases "\<bar>fst (line_array row ! nat j) - snd (line_array row ! nat j)\<bar> < diameter tool")
      case narrow: True
      from "1.IH"(1) [OF True ja narrow "1.prems"(1) j'] True ja narrow show ?thesis
        unfolding unf tj lj nj by (simp add: wide_enough_def)
    next
      case wide: False
      from "1.IH"(2) [OF True ja wide "1.prems"(1) j'] True ja wide show ?thesis
        unfolding unf tj lj nj by (simp add: wide_enough_def)
    qed
  qed
qed

lemma make_row_plan:
  assumes "row_ok row"
  shows "(if i mod 2 \<noteq> 0
          then make_right_to_left zt pr depth rapid tool row (int (line_num row) - 1) code
          else make_left_to_right zt pr depth rapid tool row 0 code)
       = Returns (code @ row_motions zt pr depth rapid tool i row)"
proof (cases "even i")
  case True
  with make_left_to_right_plan [OF assms, of zt pr depth rapid tool 0 code] show ?thesis
    by (simp add: row_motions_def row_cuts_def comp_def even_iff_mod_2_eq_zero)
next
  case False
  have "nat (int (line_num row) - 1 + 1) = line_num row" by simp
  moreover from assms have "take (line_num row) (lines_of row) = lines_of row"
    by (simp add: lines_of_length)
  ultimately have "take (nat (int (line_num row) - 1 + 1)) (lines_of row) = lines_of row"
    by simp
  with make_right_to_left_plan [OF assms, of "int (line_num row) - 1" zt pr depth rapid tool code]
    False
  show ?thesis
    by (simp add: row_motions_def row_cuts_def comp_def even_iff_mod_2_eq_zero rev_map)
qed

lemma make_rows_plan:
  "grid_ok pocket \<Longrightarrow>
   make_rows zt pr depth rapid tool pocket i code
     = Returns (code @ concat (map (\<lambda>i. row_motions zt pr depth rapid tool i (row_array pocket ! i))
                             [i..<row_num pocket]))"
proof (induction zt pr depth rapid tool pocket i code rule: make_rows.induct)
  case (1 zt pr depth rapid tool pocket i code)
  note unf = make_rows.simps [of zt pr depth rapid tool pocket i code]
  show ?case
  proof (cases "i < row_num pocket")
    case False
    then show ?thesis unfolding unf by simp
  next
    case True
    with "1.prems" have ia: "i < length (row_array pocket)"
      and ok: "row_ok (row_array pocket ! i)"
      by (simp_all add: grid_ok_def list_all_length)
    note row = make_row_plan [OF ok, of i zt pr depth rapid tool code]
    from True have up: "[i..<row_num pocket] = i # [i + 1..<row_num pocket]"
      by (simp add: upt_conv_Cons)
    from "1.IH" [OF True ia row "1.prems"] show ?thesis
      unfolding unf row up using True ia by simp
  qed
qed

lemma gcode_pocket_make_plan:
  assumes "grid_ok pocket" and "seg_num pocket \<noteq> 0"
  shows "gcode_pocket_make gsprintf zt pr pocket code depth rapid tool
       = Returns (code @ planned_motions gsprintf zt pr pocket depth rapid tool)"
  using assms(2) make_rows_plan [OF assms(1), of zt pr depth rapid tool 0]
  by (simp add: gcode_pocket_make_def planned_motions_def)

text \<open>
  Claim C7. With a segment count of zero \<^verbatim>\<open>gcode_pocket_make\<close> returns at once: the
  code of the block is what it was, with no comment, no retract and no move added.
\<close>

theorem make_nothing_without_segments:
  "seg_num pocket = 0 \<Longrightarrow>
   gcode_pocket_make gsprintf ztraverse precision pocket code depth rapid_depth tool = Returns code"
  by (simp add: gcode_pocket_make_def)

theorem make_nothing_without_segments_witness:
  "seg_num \<lparr>row_num = 1, seg_num = 0,
            row_array = [\<lparr>line_array = replicate 64 (0, 0), line_num = 0, row_y = 0\<rparr>],
            resolution = 1\<rparr> = 0
   \<and> gcode_pocket_make (\<lambda>f z. f) 5 (1 / 100000)
        \<lparr>row_num = 1, seg_num = 0,
         row_array = [\<lparr>line_array = replicate 64 (0, 0), line_num = 0, row_y = 0\<rparr>],
         resolution = 1\<rparr>
        [] (- 1) 0 \<lparr>diameter = 1\<rparr> = Returns []"
  using make_nothing_without_segments
    [of "\<lparr>row_num = 1, seg_num = 0,
         row_array = [\<lparr>line_array = replicate 64 (0, 0), line_num = 0, row_y = 0\<rparr>],
         resolution = 1\<rparr>" "\<lambda>f z. f" 5 "1 / 100000" "[]" "- 1" 0 "\<lparr>diameter = 1\<rparr>"]
  by simp

subsection \<open>Every cut has its lead-in\<close>

lemma cut_line_length:
  "length (cut_line zt pr depth rapid tool near far y) = (if rapid \<ge> depth - pr then 5 else 4)"
  by (simp add: cut_line_def)

lemma cut_line_LINE:
  assumes "k < length (cut_line zt pr depth rapid tool near far y)"
    and "cut_line zt pr depth rapid tool near far y ! k = LINE_2D x y' c"
  shows "k + 1 = length (cut_line zt pr depth rapid tool near far y) \<and> x = far \<and> y' = y"
proof (cases "rapid \<ge> depth - pr")
  case True
  with assms(1) have "k < 5" by (simp add: cut_line_def)
  then consider "k = 0" | "k = 1" | "k = 2" | "k = 3" | "k = 4" by linarith
  then show ?thesis using assms(2) True
    by cases (simp_all add: cut_line_def)
next
  case False
  with assms(1) have "k < 4" by (simp add: cut_line_def)
  then consider "k = 0" | "k = 1" | "k = 2" | "k = 3" by linarith
  then show ?thesis using assms(2) False
    by cases (simp_all add: cut_line_def)
qed

lemma all_led_in_Nil: "all_led_in zt pr depth rapid tool pocket []"
  by (simp add: all_led_in_def)

lemma led_in_append:
  "led_in zt pr depth rapid tool pocket ms n x y \<Longrightarrow>
   led_in zt pr depth rapid tool pocket (ms @ ys) n x y"
proof -
  assume "led_in zt pr depth rapid tool pocket ms n x y"
  then obtain pre post near where
    "ms = pre @ cut_line zt pr depth rapid tool near x y @ post"
    and "length pre + length (cut_line zt pr depth rapid tool near x y) = n + 1"
    and "cut_of_grid pocket near x y"
    unfolding led_in_def by blast
  then have "ms @ ys = pre @ cut_line zt pr depth rapid tool near x y @ (post @ ys)
      \<and> length pre + length (cut_line zt pr depth rapid tool near x y) = n + 1
      \<and> cut_of_grid pocket near x y"
    by simp
  then show ?thesis unfolding led_in_def by blast
qed

lemma all_led_in_append_plain:
  assumes "all_led_in zt pr depth rapid tool pocket ms"
    and "\<forall>m\<in>set ys. \<forall>x y c. m \<noteq> LINE_2D x y c"
  shows "all_led_in zt pr depth rapid tool pocket (ms @ ys)"
  unfolding all_led_in_def
proof (intro allI impI)
  fix n x y c
  assume n: "n < length (ms @ ys)" and l: "(ms @ ys) ! n = LINE_2D x y c"
  show "led_in zt pr depth rapid tool pocket (ms @ ys) n x y"
  proof (cases "n < length ms")
    case True
    with l have "ms ! n = LINE_2D x y c" by (simp add: nth_append)
    with assms(1) True have "led_in zt pr depth rapid tool pocket ms n x y"
      by (simp add: all_led_in_def)
    then show ?thesis by (rule led_in_append)
  next
    case False
    with n l have "ys ! (n - length ms) = LINE_2D x y c" and "n - length ms < length ys"
      by (simp_all add: nth_append)
    with assms(2) show ?thesis by (metis nth_mem)
  qed
qed

lemma all_led_in_append_cut:
  assumes "all_led_in zt pr depth rapid tool pocket ms"
    and "cut_of_grid pocket near far y"
  shows "all_led_in zt pr depth rapid tool pocket (ms @ cut_line zt pr depth rapid tool near far y)"
  unfolding all_led_in_def
proof (intro allI impI)
  let ?b = "cut_line zt pr depth rapid tool near far y"
  fix n x y' c
  assume n: "n < length (ms @ ?b)" and l: "(ms @ ?b) ! n = LINE_2D x y' c"
  show "led_in zt pr depth rapid tool pocket (ms @ ?b) n x y'"
  proof (cases "n < length ms")
    case True
    with l have "ms ! n = LINE_2D x y' c" by (simp add: nth_append)
    with assms(1) True have "led_in zt pr depth rapid tool pocket ms n x y'"
      by (simp add: all_led_in_def)
    then show ?thesis by (rule led_in_append)
  next
    case False
    with n l have k: "n - length ms < length ?b" and "?b ! (n - length ms) = LINE_2D x y' c"
      by (simp_all add: nth_append)
    from cut_line_LINE [OF this] have e: "n - length ms + 1 = length ?b" "x = far" "y' = y"
      by simp_all
    with False have "ms @ ?b = ms @ cut_line zt pr depth rapid tool near x y' @ []
        \<and> length ms + length (cut_line zt pr depth rapid tool near x y') = n + 1"
      by simp
    with assms(2) e show ?thesis unfolding led_in_def by blast
  qed
qed

lemma all_led_in_cuts:
  "all_led_in zt pr depth rapid tool pocket ms \<Longrightarrow>
   \<forall>c\<in>set cuts. cut_of_grid pocket (fst c) (snd c) y \<Longrightarrow>
   all_led_in zt pr depth rapid tool pocket
     (ms @ concat (map (\<lambda>c. cut_line zt pr depth rapid tool (fst c) (snd c) y) cuts))"
proof (induction cuts arbitrary: ms)
  case Nil
  then show ?case by simp
next
  case (Cons c cuts)
  from Cons.prems have "cut_of_grid pocket (fst c) (snd c) y"
    and rest: "\<forall>c\<in>set cuts. cut_of_grid pocket (fst c) (snd c) y"
    by simp_all
  from all_led_in_append_cut [OF Cons.prems(1) this(1)]
  have "all_led_in zt pr depth rapid tool pocket
          (ms @ cut_line zt pr depth rapid tool (fst c) (snd c) y)" .
  from Cons.IH [OF this rest] show ?case by simp
qed

lemma row_cuts_of_grid:
  assumes "i < row_num pocket" and "c \<in> set (row_cuts tool i (row_array pocket ! i))"
  shows "cut_of_grid pocket (fst c) (snd c) (row_y (row_array pocket ! i))"
proof -
  have "\<exists>l\<in>set (lines_of (row_array pocket ! i)).
          if even i then c = (fst l, snd l) else c = (snd l, fst l)"
  proof (cases "even i")
    case True
    with assms(2) have "c \<in> (\<lambda>l. (fst l, snd l)) ` set (lines_of (row_array pocket ! i))"
      by (auto simp: row_cuts_def)
    with True show ?thesis by auto
  next
    case False
    with assms(2) have "c \<in> (\<lambda>l. (snd l, fst l)) ` set (lines_of (row_array pocket ! i))"
      by (auto simp: row_cuts_def)
    with False show ?thesis by auto
  qed
  then obtain l where "l \<in> set (lines_of (row_array pocket ! i))"
    and "if even i then c = (fst l, snd l) else c = (snd l, fst l)"
    by blast
  with assms(1) show ?thesis unfolding cut_of_grid_def
    by (intro exI [of _ i] conjI bexI [of _ l]) (auto split: if_splits)
qed

lemma all_led_in_rows:
  "all_led_in zt pr depth rapid tool pocket ms \<Longrightarrow>
   \<forall>i\<in>set is. i < row_num pocket \<Longrightarrow>
   all_led_in zt pr depth rapid tool pocket
     (ms @ concat (map (\<lambda>i. row_motions zt pr depth rapid tool i (row_array pocket ! i)) is))"
proof (induction "is" arbitrary: ms)
  case Nil
  then show ?case by simp
next
  case (Cons i "is")
  from Cons.prems have i: "i < row_num pocket" and rest: "\<forall>i\<in>set is. i < row_num pocket"
    by simp_all
  from row_cuts_of_grid [OF i] have
    "\<forall>c\<in>set (row_cuts tool i (row_array pocket ! i)).
       cut_of_grid pocket (fst c) (snd c) (row_y (row_array pocket ! i))"
    by blast
  from all_led_in_cuts [OF Cons.prems(1) this]
  have "all_led_in zt pr depth rapid tool pocket
          (ms @ row_motions zt pr depth rapid tool i (row_array pocket ! i))"
    by (simp add: row_motions_def)
  from Cons.IH [OF this rest] show ?case by simp
qed

lemma planned_motions_led_in:
  "all_led_in zt pr depth rapid tool pocket
     (planned_motions gsprintf zt pr pocket depth rapid tool)"
proof -
  let ?head = "[APPEND [CHR 10], COMMENT (gsprintf ''Pass depth: %z'' depth), APPEND [CHR 10]]"
  have "all_led_in zt pr depth rapid tool pocket ([] @ ?head)"
    by (intro all_led_in_append_plain all_led_in_Nil) simp
  then have "all_led_in zt pr depth rapid tool pocket ?head" by simp
  from all_led_in_rows [OF this, of "[0..<row_num pocket]"]
  have "all_led_in zt pr depth rapid tool pocket
     (?head @ concat (map (\<lambda>i. row_motions zt pr depth rapid tool i (row_array pocket ! i))
                   [0..<row_num pocket]))"
    by simp
  from all_led_in_append_plain [OF this, of "[RETRACT zt]"] show ?thesis
    by (simp add: planned_motions_def)
qed

subsection \<open>The stream of a pass\<close>

text \<open>The rules that run the loops on the example grid, and the stream they give.\<close>

lemmas run_make =
  gcode_pocket_make_def make_rows.simps make_left_to_right.simps make_right_to_left.simps
  cut_line_def example_grid_def grid_of_def row_of_def line_array_size_def replicate_unfold

lemma example_grid_ok: "grid_ok example_grid"
  by (simp add: grid_ok_def row_ok_def example_grid_def grid_of_def row_of_def line_array_size_def)

lemma example_grid_make:
  "gcode_pocket_make (\<lambda>f z. f) 5 (1 / 100000) example_grid [] (- 1) 0 \<lparr>diameter = 1\<rparr>
   = Returns [APPEND [CHR 10], COMMENT ''Pass depth: %z'', APPEND [CHR 10],
          RETRACT 5, MOVE_2D 0 0 '''', PLUMMET 0, DESCEND (- 1) \<lparr>diameter = 1\<rparr>, LINE_2D 2 0 '''',
          RETRACT 5, MOVE_2D 5 0 '''', PLUMMET 0, DESCEND (- 1) \<lparr>diameter = 1\<rparr>, LINE_2D 9 0 '''',
          RETRACT 5, MOVE_2D 8 1 '''', PLUMMET 0, DESCEND (- 1) \<lparr>diameter = 1\<rparr>, LINE_2D 6 1 '''',
          RETRACT 5, MOVE_2D 4 1 '''', PLUMMET 0, DESCEND (- 1) \<lparr>diameter = 1\<rparr>, LINE_2D 1 1 '''',
          RETRACT 5]"
  by (simp add: run_make)

text \<open>
  Claim C6. For a grid whose rows fit their slots and whose segment count is not
  zero, \<^verbatim>\<open>gcode_pocket_make\<close> appends to the code of the block: the annotation of the
  pass depth; then, for the rows in the order of their indices \<open>0, ..., row_num - 1\<close>,
  the cuts of the lines of the row that are not narrower than the tool (those with
  \<open>\<bar>start - end\<bar> < diameter\<close> are skipped), in stored order and from start to end for
  an even index, in reverse stored order and from end to start for an odd index;
  then one retract.
\<close>

theorem make_visits_rows_in_zigzag_order:
  assumes "grid_ok pocket" and "seg_num pocket \<noteq> 0"
  shows "gcode_pocket_make gsprintf ztraverse precision pocket code depth rapid_depth tool
       = Returns (code
           @ [APPEND [CHR 10], COMMENT (gsprintf ''Pass depth: %z'' depth), APPEND [CHR 10]]
           @ concat (map (\<lambda>i.
               concat (map (\<lambda>l.
                   if even i
                   then cut_line ztraverse precision depth rapid_depth tool
                          (fst l) (snd l) (row_y (row_array pocket ! i))
                   else cut_line ztraverse precision depth rapid_depth tool
                          (snd l) (fst l) (row_y (row_array pocket ! i)))
                 (if even i
                  then filter (\<lambda>l. \<not> \<bar>fst l - snd l\<bar> < diameter tool)
                         (lines_of (row_array pocket ! i))
                  else rev (filter (\<lambda>l. \<not> \<bar>fst l - snd l\<bar> < diameter tool)
                         (lines_of (row_array pocket ! i))))))
               [0..<row_num pocket])
           @ [RETRACT ztraverse])"
proof -
  have w: "wide_enough tool = (\<lambda>l. \<not> \<bar>fst l - snd l\<bar> < diameter tool)"
    by (rule ext) (simp add: wide_enough_def)
  have "\<And>i row. row_motions ztraverse precision depth rapid_depth tool i row
      = concat (map (\<lambda>l.
                   if even i
                   then cut_line ztraverse precision depth rapid_depth tool
                          (fst l) (snd l) (row_y row)
                   else cut_line ztraverse precision depth rapid_depth tool
                          (snd l) (fst l) (row_y row))
                 (if even i
                  then filter (\<lambda>l. \<not> \<bar>fst l - snd l\<bar> < diameter tool) (lines_of row)
                  else rev (filter (\<lambda>l. \<not> \<bar>fst l - snd l\<bar> < diameter tool) (lines_of row))))"
    by (simp add: row_motions_def row_cuts_def w comp_def)
  then show ?thesis
    using gcode_pocket_make_plan [OF assms, of gsprintf ztraverse precision code depth rapid_depth tool]
    by (simp add: planned_motions_def)
qed

text \<open>
  The claim at the example grid, tool diameter 1: the stream of the two rows, the
  narrow line left out, the second row from right to left.
\<close>

theorem make_visits_rows_in_zigzag_order_witness:
  "gcode_pocket_make (\<lambda>f z. f) 5 (1 / 100000) example_grid [] (- 1) 0 \<lparr>diameter = 1\<rparr>
   = Returns [APPEND [CHR 10], COMMENT ''Pass depth: %z'', APPEND [CHR 10],
          RETRACT 5, MOVE_2D 0 0 '''', PLUMMET 0, DESCEND (- 1) \<lparr>diameter = 1\<rparr>, LINE_2D 2 0 '''',
          RETRACT 5, MOVE_2D 5 0 '''', PLUMMET 0, DESCEND (- 1) \<lparr>diameter = 1\<rparr>, LINE_2D 9 0 '''',
          RETRACT 5, MOVE_2D 8 1 '''', PLUMMET 0, DESCEND (- 1) \<lparr>diameter = 1\<rparr>, LINE_2D 6 1 '''',
          RETRACT 5, MOVE_2D 4 1 '''', PLUMMET 0, DESCEND (- 1) \<lparr>diameter = 1\<rparr>, LINE_2D 1 1 '''',
          RETRACT 5]"
proof -
  have s: "seg_num example_grid \<noteq> 0" by (simp add: example_grid_def grid_of_def)
  have n: "[0..<row_num example_grid] = [0, 1]"
    by (simp add: example_grid_def grid_of_def upt_rec)
  have l0: "lines_of (row_array example_grid ! 0) = [(0, 2), (3, 7 / 2), (5, 9)]"
    and l1: "lines_of (row_array example_grid ! Suc 0) = [(1, 4), (6, 8)]"
    and y0: "row_y (row_array example_grid ! 0) = 0"
    and y1: "row_y (row_array example_grid ! Suc 0) = 1"
    by (simp_all add: example_grid_def grid_of_def row_of_def lines_of_def)
  show ?thesis
    using make_visits_rows_in_zigzag_order [OF example_grid_ok s,
        of "\<lambda>f z. f" 5 "1 / 100000" "[]" "- 1" 0 "\<lparr>diameter = 1\<rparr>"]
    unfolding n by (simp add: l0 l1 y0 y1 cut_line_def)
qed

text \<open>
  Claim C5. In the stream \<^verbatim>\<open>gcode_pocket_make\<close> emits (for a grid whose rows fit their
  slots and whose segment count is not zero), every feed line to a point \<open>(x, y)\<close> is
  the last of a run of events that stand right before it: a retract to the traverse
  height, a rapid move to \<open>(near, y)\<close>, a rapid plunge to the rapid depth exactly when
  \<open>rapid_depth \<ge> depth - precision\<close>, and a feed descent to the depth; \<open>near\<close> and \<open>x\<close>
  are the two ends of a line of a row of the grid at that \<open>y\<close>, in the direction of the
  row. The stream ends with a retract to the traverse height.
\<close>

theorem make_cuts_only_after_lead_in:
  assumes "grid_ok pocket" and "seg_num pocket \<noteq> 0"
  shows "\<exists>out. gcode_pocket_make gsprintf ztraverse precision pocket code depth rapid_depth tool
               = Returns (code @ out)
          \<and> (\<forall>n<length out. \<forall>x y c. out ! n = LINE_2D x y c \<longrightarrow>
               (\<exists>pre post near.
                   out = pre @ ([RETRACT ztraverse, MOVE_2D near y '''']
                                @ (if rapid_depth \<ge> depth - precision
                                   then [PLUMMET rapid_depth] else [])
                                @ [DESCEND depth tool, LINE_2D x y '''']) @ post
                 \<and> length pre + (if rapid_depth \<ge> depth - precision then 5 else 4) = n + 1
                 \<and> (\<exists>i<row_num pocket. \<exists>l\<in>set (lines_of (row_array pocket ! i)).
                        y = row_y (row_array pocket ! i)
                      \<and> (if even i then near = fst l \<and> x = snd l
                          else near = snd l \<and> x = fst l))))
          \<and> out \<noteq> [] \<and> last out = RETRACT ztraverse"
proof -
  let ?out = "planned_motions gsprintf ztraverse precision pocket depth rapid_depth tool"
  have run: "gcode_pocket_make gsprintf ztraverse precision pocket code depth rapid_depth tool
               = Returns (code @ ?out)"
    by (rule gcode_pocket_make_plan [OF assms])
  have "all_led_in ztraverse precision depth rapid_depth tool pocket ?out"
    by (rule planned_motions_led_in)
  then have led: "\<forall>n<length ?out. \<forall>x y c. ?out ! n = LINE_2D x y c \<longrightarrow>
               (\<exists>pre post near.
                   ?out = pre @ ([RETRACT ztraverse, MOVE_2D near y '''']
                                @ (if rapid_depth \<ge> depth - precision
                                   then [PLUMMET rapid_depth] else [])
                                @ [DESCEND depth tool, LINE_2D x y '''']) @ post
                 \<and> length pre + (if rapid_depth \<ge> depth - precision then 5 else 4) = n + 1
                 \<and> (\<exists>i<row_num pocket. \<exists>l\<in>set (lines_of (row_array pocket ! i)).
                        y = row_y (row_array pocket ! i)
                      \<and> (if even i then near = fst l \<and> x = snd l
                          else near = snd l \<and> x = fst l)))"
    unfolding all_led_in_def led_in_def cut_of_grid_def cut_line_length
    unfolding cut_line_def .
  have "?out \<noteq> [] \<and> last ?out = RETRACT ztraverse"
    by (simp add: planned_motions_def)
  with run led show ?thesis by blast
qed

text \<open>
  The claim at the example grid, at the third cut of the stream (position 17): the
  five events that end there.
\<close>

theorem make_cuts_only_after_lead_in_witness:
  "\<exists>out pre post near.
      gcode_pocket_make (\<lambda>f z. f) 5 (1 / 100000) example_grid [] (- 1) 0 \<lparr>diameter = 1\<rparr>
        = Returns out
    \<and> out ! 17 = LINE_2D 6 1 ''''
    \<and> out = pre @ [RETRACT 5, MOVE_2D near 1 '''', PLUMMET 0,
                   DESCEND (- 1) \<lparr>diameter = 1\<rparr>, LINE_2D 6 1 ''''] @ post
    \<and> length pre = 13
    \<and> last out = RETRACT 5"
proof -
  have s: "seg_num example_grid \<noteq> 0" by (simp add: example_grid_def grid_of_def)
  from make_cuts_only_after_lead_in [OF example_grid_ok s,
        of "\<lambda>f z. f" 5 "1 / 100000" "[]" "- 1" 0 "\<lparr>diameter = 1\<rparr>"]
  obtain out where
    run: "gcode_pocket_make (\<lambda>f z. f) 5 (1 / 100000) example_grid [] (- 1) 0 \<lparr>diameter = 1\<rparr>
            = Returns out"
    and led: "\<forall>n<length out. \<forall>x y c. out ! n = LINE_2D x y c \<longrightarrow>
               (\<exists>pre post near.
                   out = pre @ [RETRACT 5, MOVE_2D near y '''', PLUMMET 0,
                                DESCEND (- 1) \<lparr>diameter = 1\<rparr>, LINE_2D x y ''''] @ post
                 \<and> length pre + 5 = n + 1
                 \<and> (\<exists>i<row_num example_grid. \<exists>l\<in>set (lines_of (row_array example_grid ! i)).
                        y = row_y (row_array example_grid ! i)
                      \<and> (if even i then near = fst l \<and> x = snd l
                          else near = snd l \<and> x = fst l)))"
    and lst: "last out = RETRACT 5"
    by auto
  from run have out: "out = [APPEND [CHR 10], COMMENT ''Pass depth: %z'', APPEND [CHR 10],
          RETRACT 5, MOVE_2D 0 0 '''', PLUMMET 0, DESCEND (- 1) \<lparr>diameter = 1\<rparr>, LINE_2D 2 0 '''',
          RETRACT 5, MOVE_2D 5 0 '''', PLUMMET 0, DESCEND (- 1) \<lparr>diameter = 1\<rparr>, LINE_2D 9 0 '''',
          RETRACT 5, MOVE_2D 8 1 '''', PLUMMET 0, DESCEND (- 1) \<lparr>diameter = 1\<rparr>, LINE_2D 6 1 '''',
          RETRACT 5, MOVE_2D 4 1 '''', PLUMMET 0, DESCEND (- 1) \<lparr>diameter = 1\<rparr>, LINE_2D 1 1 '''',
          RETRACT 5]"
    unfolding example_grid_make by simp
  then have at: "out ! 17 = LINE_2D 6 1 ''''" and len: "17 < length out"
    by simp_all
  from led len at obtain pre post near where
    "out = pre @ [RETRACT 5, MOVE_2D near 1 '''', PLUMMET 0,
                  DESCEND (- 1) \<lparr>diameter = 1\<rparr>, LINE_2D 6 1 ''''] @ post"
    and "length pre + 5 = 17 + 1"
    by blast
  then have "out = pre @ [RETRACT 5, MOVE_2D near 1 '''', PLUMMET 0,
                  DESCEND (- 1) \<lparr>diameter = 1\<rparr>, LINE_2D 6 1 ''''] @ post
    \<and> length pre = 13"
    by simp
  with run at lst show ?thesis by blast
qed

section \<open>A kept line that is never cut\<close>

text \<open>
  Claim C10. A segment count above zero does not mean that a cut is made. Take one
  scanline whose only pair of crossings \<open>(a, b)\<close> has a width strictly between the tool
  diameter \<open>d\<close> and \<open>1.2 * d\<close>: \<^verbatim>\<open>gcode_pocket_prep\<close> keeps the pair and counts it
  (\<open>seg_num = 1\<close>), the stored line is narrower than \<open>d\<close>, and \<^verbatim>\<open>gcode_pocket_make\<close> skips
  it; what it appends to the block is the annotation of the pass depth and the last
  retract, four events, none of them a feed line. The material has size zero, so there
  is one scanline, at the origin; this holds for every rounding that leaves 0, 1 and
  the origin as they are and under which the step leads above the origin, exact
  arithmetic among them.
\<close>

theorem kept_line_narrower_than_tool_is_skipped:
  assumes "0 < res" and "d < b - a" and "b - a < 1.2 * d"
    and "fl 0 = 0" and "fl 1 = 1" and "fl (- origin) = - origin"
    and "- origin < fl (- origin + res)"
  shows "\<exists>p'. gcode_pocket_prep fl (\<lambda>y. [a, b]) (\<lambda>xs. xs) \<lparr>diameter = d\<rparr> 0 origin
                 (gcode_pocket_init res) = Returns p'
           \<and> seg_num p' = 1 \<and> row_num p' = 1
           \<and> lines_of (row_array p' ! 0) = [(a + 0.1 * d, b - 0.1 * d)]
           \<and> \<bar>(a + 0.1 * d) - (b - 0.1 * d)\<bar> < d
           \<and> gcode_pocket_make gsprintf ztraverse precision p' code depth rapid_depth
                 \<lparr>diameter = d\<rparr>
               = Returns (code @ [APPEND [CHR 10], COMMENT (gsprintf ''Pass depth: %z'' depth),
                              APPEND [CHR 10], RETRACT ztraverse])"
proof -
  let ?tool = "\<lparr>diameter = d\<rparr>"
  let ?p = "gcode_pocket_init res"
  from assms(2,3) have d: "0 < d" and ab: "a \<le> b" by simp_all
  have alloc: "rows_allocated fl 0 (resolution ?p) = Returns 1"
    using assms(1,4,5) by (simp add: rows_allocated_def gcode_pocket_init_def)
  have ys: "[- origin] = scanlines fl (resolution ?p) (fl (0 - origin)) (- origin) (Suc 1)"
    using assms(6,7) by (simp add: gcode_pocket_init_def)
  have dd: "\<forall>xs::gfloat_t list. length ((\<lambda>xs. xs) xs) \<le> length xs" by simp
  from gcode_pocket_prep_outcome [OF dd alloc ys, where eval = "\<lambda>y. [a, b]" and tool = ?tool]
  obtain p' where
    run: "gcode_pocket_prep fl (\<lambda>y. [a, b]) (\<lambda>xs. xs) ?tool 0 origin ?p = Returns p'"
    by (auto simp: x_array_size_def)
  from gcode_pocket_prep_sound [OF run] alloc ys have
    n: "row_num p' = length (row_array p')"
    and sg: "seg_num p' = seg_num ?p + sum_list (map line_num (row_array p'))"
    and al: "list_all2 (scanline_row (\<lambda>y. [a, b]) (\<lambda>xs. xs) ?tool) [- origin] (row_array p')"
    by auto
  from al obtain row where rows: "row_array p' = [row]"
    and sr: "scanline_row (\<lambda>y. [a, b]) (\<lambda>xs. xs) ?tool (- origin) row"
    by (auto simp: list_all2_Cons1)
  from n rows have n1: "row_num p' = 1" by simp
  from ab have srt: "sort [a, b] = [a, b]" by simp
  from assms(2) have kl: "kept_lines d [a, b] = [(a + 0.1 * d, b - 0.1 * d)]"
    by (simp add: kept_lines_def kept_def nudge_def)
  from sr have l: "lines_of row = [(a + 0.1 * d, b - 0.1 * d)]" and c: "line_num row = 1"
    unfolding scanline_row_def srt using kl by simp_all
  from sg rows c have s1: "seg_num p' = 1" by (simp add: gcode_pocket_init_def)
  from assms(2,3) have narrow: "\<bar>(a + 0.1 * d) - (b - 0.1 * d)\<bar> < d" by simp
  then have cuts: "row_cuts ?tool 0 row = []"
    by (simp add: row_cuts_def l wide_enough_def)
  from s1 have "seg_num p' \<noteq> 0" by simp
  from gcode_pocket_make_plan [OF gcode_pocket_prep_grid_ok [OF run] this,
      of gsprintf ztraverse precision code depth rapid_depth ?tool]
  have "gcode_pocket_make gsprintf ztraverse precision p' code depth rapid_depth ?tool
      = Returns (code @ [APPEND [CHR 10], COMMENT (gsprintf ''Pass depth: %z'' depth),
                     APPEND [CHR 10], RETRACT ztraverse])"
    by (simp add: planned_motions_def n1 rows row_motions_def cuts)
  with run s1 n1 rows l narrow show ?thesis by auto
qed

text \<open>The claim at the crossings \<open>0\<close> and \<open>1.1\<close> with a tool of diameter 1.\<close>

theorem kept_line_narrower_than_tool_is_skipped_witness:
  "\<exists>p'. gcode_pocket_prep (\<lambda>x. x) (\<lambda>y. [0, 11 / 10]) (\<lambda>xs. xs) \<lparr>diameter = 1\<rparr> 0 0
                 (gcode_pocket_init 1) = Returns p'
           \<and> seg_num p' = 1 \<and> row_num p' = 1
           \<and> lines_of (row_array p' ! 0) = [(1 / 10, 1)]
           \<and> gcode_pocket_make (\<lambda>f z. f) 5 (1 / 100000) p' [] (- 1) 0 \<lparr>diameter = 1\<rparr>
               = Returns [APPEND [CHR 10], COMMENT ''Pass depth: %z'', APPEND [CHR 10], RETRACT 5]"
  using kept_line_narrower_than_tool_is_skipped
    [where res = 1 and d = 1 and b = "11 / 10" and a = 0 and origin = 0 and fl = "\<lambda>x. x"
       and gsprintf = "\<lambda>f z. f" and ztraverse = 5 and precision = "1 / 100000" and code = "[]"
       and depth = "- 1" and rapid_depth = 0]
  by simp

end
